theory Spec2Isabelle
  imports Complex_Main
begin

section \<open>JavaScript strings and numbers used by the extension\<close>

text \<open>
  Strings are byte lists. The patterns, selectors and numbers the extension handles are
  ASCII, where a byte, a UTF-16 code unit and a character coincide. A JavaScript number
  that holds a count or an index is an \<open>int\<close> or a \<open>nat\<close>; \<open>NaN\<close> is \<open>None\<close>.
\<close>

definition isDigit :: "char \<Rightarrow> bool" where
  \<comment> \<open>the regular expression class \<open>\d\<close>\<close>
  "isDigit c = (c \<in> set ''0123456789'')"

definition digitChar :: "nat \<Rightarrow> char" where
  "digitChar d = ''0123456789'' ! (d mod 10)"

fun toString_nat :: "nat \<Rightarrow> string" where
  "toString_nat n =
     (if n < 10 then [digitChar n] else toString_nat (n div 10) @ [digitChar (n mod 10)])"

declare toString_nat.simps [simp del]

definition toString_int :: "int \<Rightarrow> string" where
  \<comment> \<open>\<open>Number.prototype.toString\<close> on an integral number\<close>
  "toString_int i = (if i < 0 then CHR ''-'' # toString_nat (nat (- i)) else toString_nat (nat i))"

definition parseInt_char :: "char \<Rightarrow> nat option" where
  \<comment> \<open>\<open>parseInt(s, 10)\<close> on a string of one character: its value, or \<open>NaN\<close>\<close>
  "parseInt_char c = map_of (zip ''0123456789'' [0, 1, 2, 3, 4, 5, 6, 7, 8, 9]) c"

definition toLowerCase_char :: "char \<Rightarrow> char" where
  "toLowerCase_char c =
     (case map_of (zip ''ABCDEFGHIJKLMNOPQRSTUVWXYZ'' ''abcdefghijklmnopqrstuvwxyz'') c of
        Some l \<Rightarrow> l | None \<Rightarrow> c)"

definition toLowerCase :: "string \<Rightarrow> string" where
  "toLowerCase s = map toLowerCase_char s"

definition isSpace :: "char \<Rightarrow> bool" where
  \<comment> \<open>the ASCII white space and line terminators that \<open>trim\<close> removes\<close>
  "isSpace c = (c \<in> {CHR 0x09, CHR 0x0A, CHR 0x0B, CHR 0x0C, CHR 0x0D, CHR '' ''})"

definition trim :: "string \<Rightarrow> string" where
  "trim s = rev (dropWhile isSpace (rev (dropWhile isSpace s)))"

fun split_on :: "char \<Rightarrow> string \<Rightarrow> string list" where
  \<comment> \<open>\<open>s.split(sep)\<close> for a separator of one character: never an empty array\<close>
  "split_on sep [] = [[]]"
| "split_on sep (c # cs) =
     (if c = sep then [] # split_on sep cs
      else (case split_on sep cs of [] \<Rightarrow> [[c]] | p # ps \<Rightarrow> (c # p) # ps))"

definition slice_to :: "string \<Rightarrow> int \<Rightarrow> string" where
  \<comment> \<open>\<open>s.slice(0, e)\<close>: a negative end counts from the end of the string\<close>
  "slice_to s e = take (nat (if e < 0 then int (length s) + e else e)) s"

definition slice_last :: "nat \<Rightarrow> string \<Rightarrow> string" where
  \<comment> \<open>\<open>s.slice(-k)\<close> for \<open>k > 0\<close>: the last \<open>k\<close> characters, or all of a shorter string\<close>
  "slice_last k s = drop (length s - k) s"

definition padStart2 :: "string \<Rightarrow> string" where
  \<comment> \<open>\<open>s.padStart(2, '0')\<close>\<close>
  "padStart2 s = replicate (2 - length s) (CHR ''0'') @ s"


section \<open>The card generator (\<open>CCGenerator\<close>)\<close>

subsection \<open>Luhn check digit\<close>

text \<open>
  One iteration of the loop of \<open>calculateLuhnCheckDigit\<close>, on the characters from the
  right end to the left. The running sum (\<open>acc\<close> here) is \<open>NaN\<close> as soon as one character is no digit.
\<close>

fun luhn_loop :: "string \<Rightarrow> nat option \<Rightarrow> bool \<Rightarrow> nat option" where
  "luhn_loop [] acc isOdd = acc"
| "luhn_loop (c # cs) acc isOdd =
     (let digit = parseInt_char c;
          digit = (if isOdd
                   then (case digit of None \<Rightarrow> None
                         | Some d \<Rightarrow> (let d = d * 2 in Some (if d > 9 then d - 9 else d)))
                   else digit);
          acc = (case (acc, digit) of (Some s, Some d) \<Rightarrow> Some (s + d) | _ \<Rightarrow> None)
      in luhn_loop cs acc (\<not> isOdd))"

definition calculateLuhnCheckDigit :: "string \<Rightarrow> nat option" where
  "calculateLuhnCheckDigit cardNumberWithoutCheck =
     (case luhn_loop (rev cardNumberWithoutCheck) (Some 0) True of
        None \<Rightarrow> None
      | Some acc \<Rightarrow> Some ((10 - (acc mod 10)) mod 10))"

definition validateLuhn :: "string \<Rightarrow> bool" where
  "validateLuhn cardNumber =
     (let digits = filter isDigit cardNumber in
      if length digits < 13 \<or> length digits > 19 then False
      else (let withoutCheck = butlast digits;
                checkDigit = parseInt_char (last digits)
            in (case (calculateLuhnCheckDigit withoutCheck, checkDigit) of
                  (Some a, Some b) \<Rightarrow> a = b
                | _ \<Rightarrow> False)))"

subsection \<open>Random draws and their products\<close>

text \<open>
  \<open>Math.random()\<close> is the only source of randomness. It returns a double in \<open>[0, 1)\<close>. A
  finite double that is not negative is \<open>mant / 2 ^ expo\<close> with \<open>mant < 2 ^ 53\<close>; a generator
  state is the sequence of the doubles it will return and the position of the next one.
\<close>

record double =
  mant :: int
  expo :: nat

type_synonym rng = "(nat \<Rightarrow> double) \<times> nat"

definition Math_random :: "rng \<Rightarrow> double \<times> rng" where
  "Math_random g = (case g of (draws, pos) \<Rightarrow> (draws pos, (draws, Suc pos)))"

definition unit_draws :: "(nat \<Rightarrow> double) \<Rightarrow> bool" where
  \<comment> \<open>the contract of \<open>Math.random\<close>: doubles from 0 to below 1\<close>
  "unit_draws draws =
     (\<forall>i. 0 \<le> mant (draws i) \<and> mant (draws i) < 2 ^ 53 \<and> mant (draws i) < 2 ^ expo (draws i))"

text \<open>
  The code multiplies a draw by a small integer and takes \<open>Math.floor\<close> of the product. The
  product of two doubles is the exact product rounded to 53 significant bits, to the nearest
  and to the even neighbour on a tie. With the draw \<open>mant / 2 ^ expo\<close> and the integer \<open>k\<close> the
  exact product is \<open>(mant * k) / 2 ^ expo\<close>, so the rounding is one of the integer
  \<open>mant * k\<close>. (No overflow can arise here, and a product below the normal range is exact.)
\<close>

function bit_length :: "int \<Rightarrow> nat" where
  "bit_length n = (if n \<le> 0 then 0 else Suc (bit_length (n div 2)))"
  by pat_completeness auto
termination
  by (relation "measure nat") auto

declare bit_length.simps [simp del]

definition round53 :: "int \<Rightarrow> int" where
  \<comment> \<open>of a number that is not negative: the nearest with at most 53 significant bits, ties to even\<close>
  "round53 n =
     (let sh = bit_length n - 53
      in if sh = 0 then n
         else (let q = n div 2 ^ sh; r = n mod 2 ^ sh; half = 2 ^ (sh - 1)
               in (if r < half then q
                   else if half < r then q + 1
                   else if even q then q else q + 1) * 2 ^ sh))"

definition floor_times :: "double \<Rightarrow> int \<Rightarrow> int" where
  \<comment> \<open>\<open>Math.floor(r * k)\<close> for a double \<open>r\<close> that is not negative and an integer \<open>k\<close>\<close>
  "floor_times r k =
     (if 0 \<le> k then round53 (mant r * k) div 2 ^ expo r
      else - ((round53 (mant r * (- k)) + 2 ^ expo r - 1) div 2 ^ expo r))"

definition randomDigit :: "rng \<Rightarrow> string \<times> rng" where
  "randomDigit g = (case Math_random g of (r, g') \<Rightarrow> (toString_int (floor_times r 10), g'))"

subsection \<open>Card number\<close>

fun replace_x :: "string \<Rightarrow> rng \<Rightarrow> string \<times> rng" where
  \<comment> \<open>\<open>s.replace(/x/g, () => this.randomDigit())\<close>: one draw per match, left to right\<close>
  "replace_x [] g = ([], g)"
| "replace_x (c # cs) g =
     (if c = CHR ''x''
      then (case randomDigit g of (d, g1) \<Rightarrow>
             (case replace_x cs g1 of (r, g2) \<Rightarrow> (d @ r, g2)))
      else (case replace_x cs g of (r, g1) \<Rightarrow> (c # r, g1)))"

lemma toString_nat_nonempty: "toString_nat n \<noteq> []"
  by (subst toString_nat.simps) simp

lemma toString_int_nonempty: "toString_int i \<noteq> []"
  by (simp add: toString_int_def toString_nat_nonempty)

lemma randomDigit_nonempty: "randomDigit g = (d, g') \<Longrightarrow> d \<noteq> []"
  by (auto simp: randomDigit_def toString_int_nonempty split: prod.splits)

function pad_loop :: "string \<Rightarrow> int \<Rightarrow> rng \<Rightarrow> string \<times> rng" where
  \<comment> \<open>\<open>while (cardDigits.length < length - 1) cardDigits += this.randomDigit()\<close>\<close>
  "pad_loop cardDigits bound g =
     (if int (length cardDigits) < bound
      then (case randomDigit g of (d, g') \<Rightarrow> pad_loop (cardDigits @ d) bound g')
      else (cardDigits, g))"
  by pat_completeness auto
termination
  apply (relation "measure (\<lambda>(cardDigits, bound, g). nat (bound - int (length cardDigits)))")
   apply simp
  apply (auto dest!: randomDigit_nonempty [OF sym])
  done

declare pad_loop.simps [simp del]

definition generateCardNumber :: "string \<Rightarrow> nat \<Rightarrow> rng \<Rightarrow> string \<times> rng" where
  "generateCardNumber binPattern len g =
     (case replace_x (toLowerCase binPattern) g of (cardDigits, g1) \<Rightarrow>
      (case pad_loop cardDigits (int len - 1) g1 of (cardDigits, g2) \<Rightarrow>
       (let cardDigits = slice_to cardDigits (int len - 1);
            checkDigit = calculateLuhnCheckDigit cardDigits
        in (cardDigits @ (case checkDigit of None \<Rightarrow> ''NaN'' | Some d \<Rightarrow> toString_nat d), g2))))"


definition draws0 :: "nat \<Rightarrow> double" where
  \<comment> \<open>a concrete sequence of draws: 0.375, 0.75, 0.375, ...\<close>
  "draws0 i = (if even i then \<lparr>mant = 3, expo = 3\<rparr> else \<lparr>mant = 3, expo = 2\<rparr>)"


subsection \<open>Expiry, verification code, card type, the whole record\<close>

record parsed_bin =
  pb_bin :: string
  pb_month :: "string option"
  pb_year :: "string option"

definition part_at :: "string list \<Rightarrow> nat \<Rightarrow> string option" where
  \<comment> \<open>\<open>parts[i] ? parts[i].trim() : null\<close>: a missing or empty part is falsy\<close>
  "part_at parts i =
     (if i < length parts \<and> parts ! i \<noteq> [] then Some (trim (parts ! i)) else None)"

definition parseBinInput :: "string \<Rightarrow> parsed_bin" where
  "parseBinInput binInput =
     (let parts = split_on (CHR ''|'') binInput
      in \<lparr>pb_bin = trim (hd parts), pb_month = part_at parts 1, pb_year = part_at parts 2\<rparr>)"

record expiry =
  exp_month :: string
  exp_year :: string

text \<open>The clock read by \<open>new Date()\<close>: \<open>getFullYear()\<close> and \<open>getMonth()\<close> (0 to 11).\<close>

record date =
  getFullYear :: int
  getMonth :: int

definition generateExpiry :: "date \<Rightarrow> rng \<Rightarrow> expiry \<times> rng" where
  "generateExpiry now g =
     (let currentYear = getFullYear now;
          currentMonth = getMonth now + 1
      in (case Math_random g of (r1, g1) \<Rightarrow>
          (let futureYears = floor_times r1 4 + 1;
               year = currentYear + futureYears
           in (case Math_random g1 of (r2, g2) \<Rightarrow>
               (let month = floor_times r2 12 + 1
                in (if year = currentYear \<and> month \<le> currentMonth
                    then (case Math_random g2 of (r3, g3) \<Rightarrow>
                           (\<lparr>exp_month = padStart2 (toString_int
                                 (currentMonth + floor_times r3 (12 - currentMonth) + 1)),
                             exp_year = slice_last 2 (toString_int year)\<rparr>, g3))
                    else (\<lparr>exp_month = padStart2 (toString_int month),
                           exp_year = slice_last 2 (toString_int year)\<rparr>, g2)))))))"

fun generateCVV_loop :: "nat \<Rightarrow> string \<Rightarrow> rng \<Rightarrow> string \<times> rng" where
  \<comment> \<open>the remaining iterations of \<open>for (i = 0; i < length; i++) cvv += this.randomDigit()\<close>\<close>
  "generateCVV_loop 0 cvv g = (cvv, g)"
| "generateCVV_loop (Suc n) cvv g =
     (case randomDigit g of (d, g') \<Rightarrow> generateCVV_loop n (cvv @ d) g')"

definition generateCVV :: "nat \<Rightarrow> rng \<Rightarrow> string \<times> rng" where
  "generateCVV len g = generateCVV_loop len [] g"

definition startsWith :: "string \<Rightarrow> string \<Rightarrow> bool" where
  "startsWith p s = (take (length p) s = p)"

definition charIn :: "nat \<Rightarrow> string \<Rightarrow> string \<Rightarrow> bool" where
  \<comment> \<open>the character at position \<open>i\<close> exists and belongs to the class\<close>
  "charIn i cls s = (i < length s \<and> s ! i \<in> set cls)"

definition detectCardType :: "string \<Rightarrow> string" where
  "detectCardType cardNumber =
     (let bin = take 6 (filter isDigit cardNumber) in
      if startsWith ''4'' bin then ''VISA''
      else if startsWith ''5'' bin \<and> charIn 1 ''12345'' bin then ''MASTERCARD''
      else if startsWith ''3'' bin \<and> charIn 1 ''47'' bin then ''AMEX''
      else if startsWith ''6011'' bin \<or> startsWith ''65'' bin then ''DISCOVER''
      else if startsWith ''35'' bin
              \<and> (charIn 2 ''2'' bin \<and> charIn 3 ''89'' bin \<or> charIn 2 ''345678'' bin) then ''JCB''
      else if startsWith ''62'' bin then ''UNIONPAY''
      else ''UNKNOWN'')"

fun group4 :: "string \<Rightarrow> string" where
  \<comment> \<open>\<open>s.replace(/(\d{4})/g, '$1 ')\<close>: a blank after every run of four digits\<close>
  "group4 (a # b # c # d # s) =
     (if isDigit a \<and> isDigit b \<and> isDigit c \<and> isDigit d
      then a # b # c # d # CHR '' '' # group4 s
      else a # group4 (b # c # d # s))"
| "group4 s = s"

record card_data =
  cardNumber :: string
  cardType :: string
  card_expiry :: expiry
  cvv :: string
  formatted_cardNumber :: string
  formatted_expiry :: string

definition truthy :: "string option \<Rightarrow> bool" where
  \<comment> \<open>a string or \<open>null\<close> in a condition: \<open>null\<close> and the empty string are falsy\<close>
  "truthy v = (case v of None \<Rightarrow> False | Some s \<Rightarrow> s \<noteq> [])"

definition generate :: "string \<Rightarrow> date \<Rightarrow> rng \<Rightarrow> card_data \<times> rng" where
  "generate binInput now g =
     (let parsed = parseBinInput binInput
      in (case generateCardNumber (pb_bin parsed) 16 g of (number, g1) \<Rightarrow>
          (let ctype = detectCardType number
           in (case (if truthy (pb_month parsed) \<and> truthy (pb_year parsed)
                     then (\<lparr>exp_month = padStart2 (the (pb_month parsed)),
                            exp_year = (if length (the (pb_year parsed)) = 4
                                        then slice_last 2 (the (pb_year parsed))
                                        else the (pb_year parsed))\<rparr>, g1)
                     else generateExpiry now g1) of (expy, g2) \<Rightarrow>
               (let cvvLength = (if ctype = ''AMEX'' then 4 else 3)
                in (case generateCVV cvvLength g2 of (code, g3) \<Rightarrow>
                    (\<lparr>cardNumber = number, cardType = ctype, card_expiry = expy, cvv = code,
                      formatted_cardNumber = trim (group4 number),
                      formatted_expiry = exp_month expy @ ''/'' @ exp_year expy\<rparr>, g3)))))))"

definition date0 :: date where
  "date0 = \<lparr>getFullYear = 2026, getMonth = 10\<rparr>"

subsection \<open>Luhn's formula, stated apart from the code\<close>

text \<open>
  The formula as it is usually stated. Count the digits of the whole number from the right,
  the check digit at position 0. Every digit at an odd position is doubled, and 9 is taken
  off a double above 9. The number is valid when the total of these values and of the
  digits at the even positions is a multiple of 10. The check digit of a number without
  one is the digit that makes the completed number valid.
\<close>

definition digit_value :: "char \<Rightarrow> nat" where
  \<comment> \<open>the value of a decimal digit, from its character code\<close>
  "digit_value c = of_char c - 48"

definition luhn_double :: "nat \<Rightarrow> nat" where
  "luhn_double d = (if 9 < 2 * d then 2 * d - 9 else 2 * d)"

definition luhn_total :: "nat list \<Rightarrow> nat" where
  "luhn_total ds =
     sum_list (map (\<lambda>i. if odd i then luhn_double (rev ds ! i) else rev ds ! i) [0..<length ds])"

definition luhn_valid :: "nat list \<Rightarrow> bool" where
  "luhn_valid ds = (luhn_total ds mod 10 = 0)"

fun weighted :: "bool \<Rightarrow> nat list \<Rightarrow> nat" where
  \<comment> \<open>the total over a list read from its head, the head doubled or not, then in turns\<close>
  "weighted dbl [] = 0"
| "weighted dbl (d # ds) = (if dbl then luhn_double d else d) + weighted (\<not> dbl) ds"

section \<open>The content script: session state, storage and \<open>runAutomation\<close>\<close>

text \<open>
  The values the variable \<open>success\<close> takes: \<open>false\<close>, \<open>true\<close> and, in the variant whose step 3
  can hand the card over for manual entry, the string \<open>'partial'\<close> (truthy).
\<close>

datatype outcome = OFalse | OTrue | OPartial

definition succeeded :: "outcome \<Rightarrow> bool" where
  \<comment> \<open>the truthiness of \<open>success\<close>\<close>
  "succeeded v = (v \<noteq> OFalse)"

record run_result =
  rr_email :: string
  rr_cardNumber :: string
  rr_timestamp :: string
  rr_success :: outcome

text \<open>
  The persisted settings object. A property may be absent (\<open>None\<close>) as in the object \<open>{}\<close>.
  The cursor \<open>currentEmailIndex\<close> is a natural number; JavaScript's loss of integer
  precision beyond \<open>2^53\<close> is out of reach of any run count and is not modelled.
\<close>

record settings =
  emailList :: "string option"
  bin :: "string option"
  firstName :: "string option"
  lastName :: "string option"
  postalCode :: "string option"
  currentEmailIndex :: "nat option"

definition no_settings :: settings where
  \<comment> \<open>the object \<open>{}\<close>\<close>
  "no_settings = \<lparr>emailList = None, bin = None, firstName = None, lastName = None,
                   postalCode = None, currentEmailIndex = None\<rparr>"

record storage =
  adobeAutoSettings :: "settings option"
  adobeAutoResults :: "run_result list option"

record form_data =
  fd_firstName :: string
  fd_lastName :: string
  fd_postalCode :: string

type_synonym status = "nat \<times> string \<times> bool"

datatype step_call =
  StepFillEmail string
| StepClickContinue
| StepFillPayment card_data form_data

text \<open>
  The object \<open>state\<close> of the content script, with two traces of what the script did: the
  \<open>STATUS_UPDATE\<close> messages it sent and the step functions it called, oldest first.
\<close>

record session =
  isRunning :: bool
  currentStep :: nat
  currentEmail :: "string option"
  statuses :: "status list"
  calls :: "step_call list"

definition updateStatus :: "nat \<Rightarrow> string \<Rightarrow> bool \<Rightarrow> session \<Rightarrow> session" where
  "updateStatus step message isError s =
     s\<lparr>currentStep := step, statuses := statuses s @ [(step, message, isError)]\<rparr>"

definition updateStatuses :: "status list \<Rightarrow> session \<Rightarrow> session" where
  "updateStatuses sts s = foldl (\<lambda>s (step, message, isError). updateStatus step message isError s) s sts"

text \<open>
  The three step functions are parameters of a run: each returns its result and the status
  updates it made on the way. What the page shows when the run starts is part of the
  environment, with the clock and the random draws.
\<close>

record steps =
  run_stepFillEmail :: "string \<Rightarrow> outcome \<times> status list"
  run_stepClickContinue :: "outcome \<times> status list"
  run_stepFillPayment :: "card_data \<Rightarrow> form_data \<Rightarrow> outcome \<times> status list"

record page =
  emailPanel :: bool
  paymentPanel :: bool
  clock :: date
  toISOString :: string
  random :: rng

definition orDefault :: "string option \<Rightarrow> string \<Rightarrow> string" where
  \<comment> \<open>\<open>v || d\<close> on a string that may be absent\<close>
  "orDefault v d = (if truthy v then the v else d)"

definition emails_of :: "settings \<Rightarrow> string list" where
  \<comment> \<open>\<open>(settings.emailList || '').split('\n').filter(e => e.trim())\<close>\<close>
  "emails_of st = filter (\<lambda>e. trim e \<noteq> []) (split_on (CHR 0x0A) (orDefault (emailList st) []))"

definition loaded_settings :: "storage \<Rightarrow> settings" where
  \<comment> \<open>\<open>result.adobeAutoSettings || {}\<close>\<close>
  "loaded_settings db = (case adobeAutoSettings db of None \<Rightarrow> no_settings | Some st \<Rightarrow> st)"

definition stored_results :: "storage \<Rightarrow> run_result list" where
  \<comment> \<open>\<open>data.adobeAutoResults || []\<close>\<close>
  "stored_results db = (case adobeAutoResults db of None \<Rightarrow> [] | Some rs \<Rightarrow> rs)"

definition cursor_of :: "settings \<Rightarrow> nat" where
  \<comment> \<open>\<open>settings.currentEmailIndex || 0\<close>\<close>
  "cursor_of st = (case currentEmailIndex st of None \<Rightarrow> 0 | Some i \<Rightarrow> i)"

definition run_steps :: "steps \<Rightarrow> page \<Rightarrow> string \<Rightarrow> card_data \<Rightarrow> form_data \<Rightarrow> session
    \<Rightarrow> outcome \<times> session" where
  \<comment> \<open>from \<open>let success = true\<close> to the end of the second \<open>if\<close>\<close>
  "run_steps st pg email cardData formData s =
     (let (success, s) =
        (if emailPanel pg
         then (let (success, sts) = run_stepFillEmail st email;
                   s = updateStatuses sts (s\<lparr>calls := calls s @ [StepFillEmail email]\<rparr>)
               in if succeeded success
                  then (let (success, sts) = run_stepClickContinue st
                        in (success, updateStatuses sts (s\<lparr>calls := calls s @ [StepClickContinue]\<rparr>)))
                  else (success, s))
         else (OTrue, s))
      in if paymentPanel pg \<or> succeeded success
         then (let (success, sts) = run_stepFillPayment st cardData formData;
                   s = updateStatuses sts (s\<lparr>calls := calls s @ [StepFillPayment cardData formData]\<rparr>)
               in if succeeded success
                  then (success, updateStatus 4 ''Ready - Click Start Trial manually'' False s)
                  else (success, s))
         else (success, s))"

text \<open>
  The result is written by the callback of a read of the ledger, which the browser runs
  after \<open>runAutomation\<close> has returned. The write is taken here as the last act of the run:
  no other run reads the storage between the end of the steps and this write.
\<close>

definition save_result :: "settings \<Rightarrow> nat \<Rightarrow> run_result \<Rightarrow> storage \<Rightarrow> storage" where
  \<comment> \<open>the callback of \<open>chrome.storage.local.get(['adobeAutoResults'], ...)\<close>\<close>
  "save_result st currentIndex result db =
     (let results = result # stored_results db
      in db\<lparr>adobeAutoResults := Some (take 100 results),
             adobeAutoSettings := Some (st\<lparr>currentEmailIndex := Some (currentIndex + 1)\<rparr>)\<rparr>)"

definition runAutomation_body :: "steps \<Rightarrow> page \<Rightarrow> settings \<Rightarrow> session \<times> storage
    \<Rightarrow> session \<times> storage" where
  \<comment> \<open>\<open>runAutomation\<close> from the line after \<open>const settings = await ...\<close>, on the settings loaded\<close>
  "runAutomation_body st pg settings sd =
     (case sd of (s, db) \<Rightarrow>
      (let emails = emails_of settings;
           pattern = orDefault (bin settings) ''4537890000000000'';
           formData = \<lparr>fd_firstName = orDefault (firstName settings) ''John'',
                       fd_lastName = orDefault (lastName settings) ''Smith'',
                       fd_postalCode = orDefault (postalCode settings) ''SW1A 1AA''\<rparr>
       in if length emails = 0
          then ((updateStatus 0 ''No emails configured!'' True s)\<lparr>isRunning := False\<rparr>, db)
          else (let currentIndex = cursor_of settings;
                    email = emails ! (currentIndex mod length emails);
                    s = s\<lparr>currentEmail := Some email\<rparr>;
                    cardData = fst (generate pattern (clock pg) (random pg));
                    (success, s) = run_steps st pg email cardData formData s;
                    result = \<lparr>rr_email = email,
                              rr_cardNumber = slice_last 4 (cardNumber cardData),
                              rr_timestamp = toISOString pg,
                              rr_success = success\<rparr>
                in (s\<lparr>isRunning := False\<rparr>,
                    save_result settings currentIndex result db))))"

definition runAutomation :: "steps \<Rightarrow> page \<Rightarrow> session \<times> storage \<Rightarrow> session \<times> storage" where
  \<comment> \<open>one call that runs to its end with no other message handled in between\<close>
  "runAutomation st pg sd =
     (case sd of (s, db) \<Rightarrow>
        if isRunning s then (s, db)
        else runAutomation_body st pg (loaded_settings db) (s\<lparr>isRunning := True\<rparr>, db))"

text \<open>
  Messages that arrive while a run is suspended. \<open>runAutomation\<close> tests and sets
  \<open>state.isRunning\<close> and asks the storage for the settings before its first \<open>await\<close>; the
  rest of the run happens later, on the settings that read returned. \<open>Start\<close> is a call of
  \<open>runAutomation\<close> up to that \<open>await\<close>; \<open>Resume\<close> lets the oldest suspended run go on to its
  end. The settings each suspended run has loaded are kept beside the state, oldest first.
  \<open>Stop\<close> is the handler of \<open>STOP_AUTOMATION\<close>: it clears the flag and reports, and ends no
  suspended run.
\<close>

definition on_STOP_AUTOMATION :: "session \<Rightarrow> session" where
  \<comment> \<open>\<open>state.isRunning = false; updateStatus(0, 'Stopped')\<close>\<close>
  "on_STOP_AUTOMATION s = updateStatus 0 ''Stopped'' False (s\<lparr>isRunning := False\<rparr>)"

datatype event = Start | Stop | Resume page

record tab =
  tab_session :: session
  tab_storage :: storage
  suspended :: "settings list"

definition handle_event :: "steps \<Rightarrow> tab \<Rightarrow> event \<Rightarrow> tab" where
  "handle_event st t ev =
     (case ev of
        Start \<Rightarrow>
          if isRunning (tab_session t) then t
          else t\<lparr>tab_session := (tab_session t)\<lparr>isRunning := True\<rparr>,
                 suspended := suspended t @ [loaded_settings (tab_storage t)]\<rparr>
      | Stop \<Rightarrow> t\<lparr>tab_session := on_STOP_AUTOMATION (tab_session t)\<rparr>
      | Resume pg \<Rightarrow>
          (case suspended t of
             [] \<Rightarrow> t
           | settings # waiting \<Rightarrow>
               (case runAutomation_body st pg settings (tab_session t, tab_storage t) of
                  (s, db) \<Rightarrow> t\<lparr>tab_session := s, tab_storage := db, suspended := waiting\<rparr>)))"

definition handle_events :: "steps \<Rightarrow> tab \<Rightarrow> event list \<Rightarrow> tab" where
  "handle_events st t evs = foldl (handle_event st) t evs"

fun runs :: "steps \<Rightarrow> page list \<Rightarrow> session \<times> storage \<Rightarrow> session \<times> storage" where
  \<comment> \<open>runs one after the other, each on the page it finds\<close>
  "runs st [] sd = sd"
| "runs st (pg # pgs) sd = runs st pgs (runAutomation st pg sd)"

subsection \<open>A concrete page, session and storage\<close>

definition steps0 :: steps where
  \<comment> \<open>step 1 succeeds, the gate of step 2 times out\<close>
  "steps0 = \<lparr>run_stepFillEmail = (\<lambda>e. (OTrue, [(1, ''Email filled'', False)])),
              run_stepClickContinue = (OFalse, [(2, ''Timeout waiting for email validation'', True)]),
              run_stepFillPayment = (\<lambda>c f. (OTrue, [(3, ''Payment info filled'', False)]))\<rparr>"

definition page0 :: page where
  "page0 = \<lparr>emailPanel = True, paymentPanel = False, clock = date0,
             toISOString = ''2026-11-03T09:00:00.000Z'', random = (draws0, 0)\<rparr>"

definition idle0 :: session where
  "idle0 = \<lparr>isRunning = False, currentStep = 0, currentEmail = None, statuses = [], calls = []\<rparr>"

definition db0 :: storage where
  \<comment> \<open>three identifiers, the cursor on the last one\<close>
  "db0 = \<lparr>adobeAutoSettings =
             Some (no_settings\<lparr>emailList := Some ''a@x\<newline>b@x\<newline>c@x'', currentEmailIndex := Some 2\<rparr>),
           adobeAutoResults = None\<rparr>"

definition old_entry :: "nat \<Rightarrow> run_result" where
  "old_entry i = \<lparr>rr_email = ''old@x'', rr_cardNumber = toString_nat i, rr_timestamp = [],
                   rr_success = OTrue\<rparr>"

definition db_full :: storage where
  \<comment> \<open>the same settings with a ledger of 100 entries\<close>
  "db_full = db0\<lparr>adobeAutoResults := Some (map old_entry [0..<100])\<rparr>"

definition db_empty :: storage where
  \<comment> \<open>no identifier configured\<close>
  "db_empty = \<lparr>adobeAutoSettings = Some (no_settings\<lparr>emailList := Some '' \<newline>''\<rparr>),
                adobeAutoResults = Some [old_entry 0]\<rparr>"

definition tab0 :: tab where
  \<comment> \<open>an idle tab on \<open>db0\<close>, no run suspended\<close>
  "tab0 = \<lparr>tab_session = idle0, tab_storage = db0, suspended = []\<rparr>"

section \<open>Step 3 with its list of failed fields\<close>

text \<open>
  The variant of \<open>stepFillPayment\<close> that collects \<open>failedFields\<close>. The page is described by
  what each lookup and each write does. A write (\<open>typeText\<close>, \<open>setInputValue\<close>) leaves the
  control with a value, leaves it empty, or throws. A wait for a control (\<open>waitForElement\<close>
  with \<open>.catch(() => null)\<close>) finds it or times out. The card number is looked up in the
  document, then in the frame: the frame's document may hold the control, hold none, or be out
  of reach.
\<close>

datatype selector =
  SEL_paymentPanel_active
| SEL_cardNumberIframe
| SEL_cardNumberInput
| SEL_expiryInput
| SEL_firstNameInput
| SEL_lastNameInput
| SEL_postalCodeInput


datatype fill_outcome = ValueSet | ValueEmpty | Raises string

datatype lookup = Missing | Located fill_outcome

datatype card_lookup =
  Direct fill_outcome
| InFrame fill_outcome
| FrameWithoutInput
| FrameBlocked

record payment_page =
  pp_panel :: bool
  pp_card :: card_lookup
  pp_expiry :: lookup
  pp_firstName :: lookup
  pp_lastName :: lookup
  pp_postalCode :: lookup

text \<open>What the step does to the page and reports, in order.\<close>

datatype action =
  Status nat string bool
| Locate selector
| Write selector string

record filling =
  failedFields :: "string list"
  allFieldsFilled :: bool
  acts :: "action list"

definition act :: "action \<Rightarrow> filling \<Rightarrow> filling" where
  "act a f = f\<lparr>acts := acts f @ [a]\<rparr>"

definition fail_field :: "string \<Rightarrow> filling \<Rightarrow> filling" where
  \<comment> \<open>\<open>failedFields.push(name); allFieldsFilled = false\<close>\<close>
  "fail_field name f = f\<lparr>failedFields := failedFields f @ [name], allFieldsFilled := False\<rparr>"


definition fill_field ::
  "string \<Rightarrow> selector \<Rightarrow> string \<Rightarrow> string \<Rightarrow> lookup \<Rightarrow> filling \<Rightarrow> string option \<times> filling" where
  \<comment> \<open>one of the four blocks that follow; \<open>Some e\<close> is an exception on its way to the outer \<open>catch\<close>\<close>
  "fill_field message sel name text l f =
     (let f = act (Status 3 message False) f;
          f = act (Locate sel) f
      in case l of
           Missing \<Rightarrow> (None, f)
         | Located r \<Rightarrow>
             (let f = act (Write sel text) f
              in case r of
                   ValueSet \<Rightarrow> (None, f)
                 | ValueEmpty \<Rightarrow> (None, fail_field name f)
                 | Raises e \<Rightarrow> (Some e, f)))"

definition and_then ::
  "string option \<times> filling \<Rightarrow> (filling \<Rightarrow> string option \<times> filling) \<Rightarrow> string option \<times> filling" where
  \<comment> \<open>the next statement runs unless an exception is on its way\<close>
  "and_then r k = (case r of (Some e, f) \<Rightarrow> (Some e, f) | (None, f) \<Rightarrow> k f)"

definition fill_others :: "payment_page \<Rightarrow> card_data \<Rightarrow> form_data \<Rightarrow> filling \<Rightarrow> string option \<times> filling" where
  "fill_others pg cardData formData f =
     and_then (and_then (and_then
       (fill_field ''Filling expiry date...'' SEL_expiryInput ''Expiry''
          (formatted_expiry cardData) (pp_expiry pg) f)
       (fill_field ''Filling first name...'' SEL_firstNameInput ''First name''
          (fd_firstName formData) (pp_firstName pg)))
       (fill_field ''Filling last name...'' SEL_lastNameInput ''Last name''
          (fd_lastName formData) (pp_lastName pg)))
       (fill_field ''Filling postal code...'' SEL_postalCodeInput ''Postal code''
          (fd_postalCode formData) (pp_postalCode pg))"

fun join :: "string \<Rightarrow> string list \<Rightarrow> string" where
  \<comment> \<open>\<open>Array.prototype.join\<close>\<close>
  "join sep [] = []"
| "join sep [x] = x"
| "join sep (x # y # ys) = x @ sep @ join sep (y # ys)"

definition check_mark :: string where
  \<comment> \<open>the character U+2713, in UTF-8\<close>
  "check_mark = [CHR 0xE2, CHR 0x9C, CHR 0x93]"


subsection \<open>Reading a trace\<close>

definition later_field :: "selector \<Rightarrow> bool" where
  "later_field sel = (sel \<in> {SEL_expiryInput, SEL_firstNameInput, SEL_lastNameInput, SEL_postalCodeInput})"

definition later_attempts :: "action list \<Rightarrow> action list" where
  \<comment> \<open>the lookups and writes on the expiry, name and postal-code fields\<close>
  "later_attempts tr =
     filter (\<lambda>a. case a of Locate sel \<Rightarrow> later_field sel | Write sel t \<Rightarrow> later_field sel
                   | Status n m e \<Rightarrow> False) tr"







definition start_filling :: filling where
  "start_filling = \<lparr>failedFields = [], allFieldsFilled = True,
     acts = [Status 3 ''Waiting for payment form...'' False, Locate SEL_paymentPanel_active]\<rparr>"

definition final_status :: "string option \<times> filling \<Rightarrow> action" where
  "final_status r =
     (case fst r of
        Some e \<Rightarrow> Status 3 (''Error: '' @ e) True
      | None \<Rightarrow>
          if \<not> allFieldsFilled (snd r)
          then Status 3 (''Failed: '' @ join '', '' (failedFields (snd r))) True
          else Status 3 (''Payment info filled '' @ check_mark) False)"




section \<open>Waiting for the page\<close>

text \<open>
  A document is what \<open>document.querySelector\<close> answers for a selector. Of an element only
  its identity and its \<open>offsetParent\<close> matter here; \<open>None\<close> is \<open>null\<close>, the value the layout
  gives an element that is not rendered.
\<close>

record element =
  el_id :: nat
  offsetParent :: "nat option"

type_synonym document = "string \<Rightarrow> element option"

definition ready :: "document \<Rightarrow> string \<Rightarrow> element option" where
  \<comment> \<open>the element of \<open>querySelector\<close> when \<open>element && element.offsetParent !== null\<close>\<close>
  "ready doc selector =
     (case doc selector of
        None \<Rightarrow> None
      | Some element \<Rightarrow> if offsetParent element \<noteq> None then Some element else None)"

subsection \<open>The polling variant\<close>

text \<open>
  \<open>doc t\<close> is the document \<open>t\<close> milliseconds after the start of the wait. \<open>delay(200)\<close> resumes
  after 200 milliseconds and some lateness of the timer, \<open>late t\<close>. An exception is \<open>Inl\<close>
  with its message.
\<close>

function waitForElement_poll ::
  "(nat \<Rightarrow> document) \<Rightarrow> (nat \<Rightarrow> nat) \<Rightarrow> string \<Rightarrow> nat \<Rightarrow> nat \<Rightarrow> string + element" where
  "waitForElement_poll doc late selector timeout elapsed =
     (if elapsed < timeout
      then (case ready (doc elapsed) selector of
              Some element \<Rightarrow> Inr element
            | None \<Rightarrow> waitForElement_poll doc late selector timeout (elapsed + 200 + late elapsed))
      else Inl (''Element not found: '' @ selector))"
  by pat_completeness auto
termination
  by (relation "measure (\<lambda>(doc, late, selector, timeout, elapsed). timeout - elapsed)") auto

declare waitForElement_poll.simps [simp del]

subsection \<open>The variant with a \<open>MutationObserver\<close>\<close>

text \<open>
  The promise is settled at once when the element is ready. Otherwise it stays pending until
  an observer callback sees a ready element or the timer fires; both callbacks are removed
  once the promise is settled.
\<close>

datatype 'a promise = Pending | Resolved 'a | Rejected string

datatype dom_event = Mutation document | TimerFired

definition waitForElement_start :: "string \<Rightarrow> document \<Rightarrow> element promise" where
  "waitForElement_start selector doc =
     (case ready doc selector of Some existing \<Rightarrow> Resolved existing | None \<Rightarrow> Pending)"

definition waitForElement_on :: "string \<Rightarrow> element promise \<Rightarrow> dom_event \<Rightarrow> element promise" where
  "waitForElement_on selector p ev =
     (case p of
        Pending \<Rightarrow>
          (case ev of
             Mutation doc \<Rightarrow>
               (case ready doc selector of Some element \<Rightarrow> Resolved element | None \<Rightarrow> Pending)
           | TimerFired \<Rightarrow> Rejected (''Element not found: '' @ selector))
      | _ \<Rightarrow> p)"

definition waitForElement :: "string \<Rightarrow> document \<Rightarrow> dom_event list \<Rightarrow> element promise" where
  "waitForElement selector doc evs =
     foldl (waitForElement_on selector) (waitForElement_start selector doc) evs"

definition waitForCondition_start :: "(document \<Rightarrow> bool) \<Rightarrow> document \<Rightarrow> bool promise" where
  "waitForCondition_start conditionFn doc = (if conditionFn doc then Resolved True else Pending)"

definition waitForCondition_on ::
  "(document \<Rightarrow> bool) \<Rightarrow> bool promise \<Rightarrow> dom_event \<Rightarrow> bool promise" where
  "waitForCondition_on conditionFn p ev =
     (case p of
        Pending \<Rightarrow>
          (case ev of
             Mutation doc \<Rightarrow> if conditionFn doc then Resolved True else Pending
           | TimerFired \<Rightarrow> Rejected ''Timeout waiting for condition'')
      | _ \<Rightarrow> p)"

subsection \<open>A stop request during a wait\<close>

text \<open>
  While a wait is pending the tab receives mutations, the timer and messages. The handler of
  \<open>STOP_AUTOMATION\<close> works on \<open>state\<close> alone.
\<close>

datatype wait_input = External_stop | Dom dom_event

definition waiting_step ::
  "('a promise \<Rightarrow> dom_event \<Rightarrow> 'a promise) \<Rightarrow> session \<times> 'a promise \<Rightarrow> wait_input
     \<Rightarrow> session \<times> 'a promise" where
  "waiting_step on_event sp inp =
     (case sp of (s, p) \<Rightarrow>
        (case inp of
           External_stop \<Rightarrow> (on_STOP_AUTOMATION s, p)
         | Dom ev \<Rightarrow> (s, on_event p ev)))"

definition dom_events :: "wait_input list \<Rightarrow> dom_event list" where
  "dom_events inps = concat (map (\<lambda>inp. case inp of External_stop \<Rightarrow> [] | Dom ev \<Rightarrow> [ev]) inps)"

definition no_document :: document where
  \<comment> \<open>a page on which no selector matches\<close>
  "no_document = (\<lambda>selector. None)"

definition hidden_document :: document where
  \<comment> \<open>every selector matches an element that is not rendered\<close>
  "hidden_document = (\<lambda>selector. Some \<lparr>el_id = 1, offsetParent = None\<rparr>)"

definition shown_document :: document where
  \<comment> \<open>every selector matches a rendered element\<close>
  "shown_document = (\<lambda>selector. Some \<lparr>el_id = 2, offsetParent = Some 0\<rparr>)"

section \<open>The background worker: debugger sessions and the fill across frames\<close>

record frame =
  frame_id :: string
  frame_parentId :: "string option"
  frame_url :: string

text \<open>A node of the answer of \<open>Page.getFrameTree\<close>; an absent \<open>childFrames\<close> is the empty list.\<close>

datatype frame_tree = FrameTree frame "frame_tree list"

fun getAllFrames :: "frame_tree \<Rightarrow> frame list"
  and push_children :: "frame list \<Rightarrow> frame_tree list \<Rightarrow> frame list" where
  "getAllFrames (FrameTree fr childFrames) = push_children [fr] childFrames"
| "push_children frames [] = frames"
| "push_children frames (child # rest) = push_children (frames @ getAllFrames child) rest"

text \<open>Depth first, root first, as the specification words it.\<close>

fun preorder :: "frame_tree \<Rightarrow> frame list" where
  "preorder (FrameTree fr childFrames) = fr # concat (map preorder childFrames)"

text \<open>
  What the browser answers. \<open>chrome.debugger.attach\<close> succeeds or throws; a command of
  the protocol returns a value or throws (\<open>Inl\<close> with the message). The script evaluated in a
  frame reports a control found and filled, with its value, or not found; the answer may
  also carry no value at all.
\<close>

datatype eval_result = NoValue | NotFound | Found string

record browser =
  attach_answer :: "nat \<Rightarrow> string option"
  getFrameTree_answer :: "nat \<Rightarrow> string + frame_tree"
  createIsolatedWorld_answer :: "nat \<Rightarrow> frame \<Rightarrow> string + nat"
  evaluate_answer :: "nat \<Rightarrow> nat \<Rightarrow> string \<Rightarrow> string \<Rightarrow> string + eval_result"

datatype debugger_call =
  Call_attach nat bool
| Call_detach nat
| Call_getFrameTree nat
| Call_createIsolatedWorld nat string
| Call_evaluate nat nat

text \<open>
  The map \<open>debuggerSessions\<close> and the calls made to \<open>chrome.debugger\<close>, oldest first. A call
  of \<open>attach\<close> is kept with its outcome: \<open>True\<close> when it opened a session, \<open>False\<close> when it
  threw.
\<close>

record bridge =
  debuggerSessions :: "nat \<rightharpoonup> bool"
  debugger_calls :: "debugger_call list"

definition called :: "debugger_call \<Rightarrow> bridge \<Rightarrow> bridge" where
  "called c b = b\<lparr>debugger_calls := debugger_calls b @ [c]\<rparr>"

definition attachDebugger :: "browser \<Rightarrow> nat \<Rightarrow> bridge \<Rightarrow> (string + bool) \<times> bridge" where
  "attachDebugger env tabId b =
     (if debuggerSessions b tabId \<noteq> None then (Inr True, b)
      else (case attach_answer env tabId of
              None \<Rightarrow>
                (Inr True,
                 (called (Call_attach tabId True) b)\<lparr>debuggerSessions := (debuggerSessions b)(tabId \<mapsto> True)\<rparr>)
            | Some err \<Rightarrow> (Inl err, called (Call_attach tabId False) b)))"

definition detachDebugger :: "nat \<Rightarrow> bridge \<Rightarrow> bridge" where
  "detachDebugger tabId b =
     (if debuggerSessions b tabId \<noteq> None
      then (called (Call_detach tabId) b)\<lparr>debuggerSessions := (debuggerSessions b)(tabId := None)\<rparr>
      else b)"

definition attach_twice :: "browser \<Rightarrow> nat \<Rightarrow> bridge \<Rightarrow> (string + bool) \<times> bridge" where
  \<comment> \<open>\<open>await attachDebugger(tabId); return await attachDebugger(tabId)\<close>\<close>
  "attach_twice env tabId b =
     (case attachDebugger env tabId b of
        (Inl err, b1) \<Rightarrow> (Inl err, b1)
      | (Inr ok, b1) \<Rightarrow> attachDebugger env tabId b1)"

datatype fill_response = Success string string | Failure string

definition found_in :: "browser \<Rightarrow> nat \<Rightarrow> string \<Rightarrow> string \<Rightarrow> frame \<Rightarrow> string option" where
  \<comment> \<open>the value reported when the script finds and fills the control in this frame\<close>
  "found_in env tabId selector val fr =
     (case createIsolatedWorld_answer env tabId fr of
        Inl err \<Rightarrow> None
      | Inr executionContextId \<Rightarrow>
          (case evaluate_answer env tabId executionContextId selector val of
             Inr (Found v) \<Rightarrow> Some v
           | _ \<Rightarrow> None))"

fun try_frames ::
  "browser \<Rightarrow> nat \<Rightarrow> string \<Rightarrow> string \<Rightarrow> frame list \<Rightarrow> bridge \<Rightarrow> fill_response \<times> bridge" where
  \<comment> \<open>the loop \<open>for (const frame of frames)\<close> with its \<open>try\<close> and the \<open>return\<close> after it\<close>
  "try_frames env tabId selector val [] b = (Failure ''Input not found in any frame'', b)"
| "try_frames env tabId selector val (fr # frames) b =
     (let b = called (Call_createIsolatedWorld tabId (frame_id fr)) b
      in case createIsolatedWorld_answer env tabId fr of
           Inl frameErr \<Rightarrow> try_frames env tabId selector val frames b
         | Inr executionContextId \<Rightarrow>
             (let b = called (Call_evaluate tabId executionContextId) b
              in case evaluate_answer env tabId executionContextId selector val of
                   Inl frameErr \<Rightarrow> try_frames env tabId selector val frames b
                 | Inr (Found v) \<Rightarrow> (Success (frame_id fr) v, b)
                 | Inr other \<Rightarrow> try_frames env tabId selector val frames b))"

definition fillIframeField_try ::
  "browser \<Rightarrow> nat \<Rightarrow> string \<Rightarrow> string \<Rightarrow> bridge \<Rightarrow> (string + fill_response) \<times> bridge" where
  \<comment> \<open>the body of the outer \<open>try\<close>: \<open>Inl\<close> is an exception on its way to the \<open>catch\<close>\<close>
  "fillIframeField_try env tabId selector val b =
     (case attachDebugger env tabId b of
        (Inl err, b1) \<Rightarrow> (Inl err, b1)
      | (Inr ok, b1) \<Rightarrow>
          (let b2 = called (Call_getFrameTree tabId) b1
           in case getFrameTree_answer env tabId of
                Inl err \<Rightarrow> (Inl err, b2)
              | Inr frameTree \<Rightarrow>
                  (case try_frames env tabId selector val (getAllFrames frameTree) b2 of
                     (response, b3) \<Rightarrow> (Inr response, b3))))"

definition fillIframeField ::
  "browser \<Rightarrow> nat \<Rightarrow> string \<Rightarrow> string \<Rightarrow> bridge \<Rightarrow> (string + fill_response) \<times> bridge" where
  \<comment> \<open>\<open>Inl\<close> would be an exception leaving the function\<close>
  "fillIframeField env tabId selector val b =
     (case fillIframeField_try env tabId selector val b of
        (Inl err, b1) \<Rightarrow> (Inr (Failure err), b1)
      | (Inr response, b1) \<Rightarrow> (Inr response, b1))"

definition attempted :: "bridge \<Rightarrow> string list" where
  \<comment> \<open>the frames in which an execution context was asked for, in order\<close>
  "attempted b =
     concat (map (\<lambda>c. case c of Call_createIsolatedWorld t fid \<Rightarrow> [fid] | _ \<Rightarrow> []) (debugger_calls b))"

subsection \<open>The sessions opened and not closed\<close>

definition session_step :: "nat \<Rightarrow> nat \<Rightarrow> debugger_call \<Rightarrow> nat" where
  "session_step t n c =
     (case c of
        Call_attach t' opened \<Rightarrow> if t' = t \<and> opened then n + 1 else n
      | Call_detach t' \<Rightarrow> if t' = t then n - 1 else n
      | _ \<Rightarrow> n)"

definition live_sessions :: "nat \<Rightarrow> bridge \<Rightarrow> nat" where
  \<comment> \<open>the debugger sessions the worker has opened on a tab and not closed\<close>
  "live_sessions t b = foldl (session_step t) 0 (debugger_calls b)"

definition registry_exact :: "bridge \<Rightarrow> bool" where
  \<comment> \<open>the map holds a tab exactly when one session is open on it\<close>
  "registry_exact b = (\<forall>t. live_sessions t b = (if debuggerSessions b t \<noteq> None then 1 else 0))"

text \<open>The messages the worker serves, each with what the browser answers while it is served.\<close>

datatype bridge_request = FILL_IFRAME_FIELD nat string string | DETACH_DEBUGGER nat

definition serve :: "bridge \<Rightarrow> browser \<times> bridge_request \<Rightarrow> bridge" where
  "serve b er =
     (case er of
        (env, FILL_IFRAME_FIELD tabId selector val) \<Rightarrow> snd (fillIframeField env tabId selector val b)
      | (env, DETACH_DEBUGGER tabId) \<Rightarrow> detachDebugger tabId b)"

subsection \<open>A page with three frames, the control in the second\<close>

definition frame1 :: frame where
  "frame1 = \<lparr>frame_id = ''F1'', frame_parentId = None, frame_url = ''https://commerce.adobe.com/''\<rparr>"

definition frame2 :: frame where
  "frame2 = \<lparr>frame_id = ''F2'', frame_parentId = Some ''F1'', frame_url = ''https://pay.example/card''\<rparr>"

definition frame3 :: frame where
  "frame3 = \<lparr>frame_id = ''F3'', frame_parentId = Some ''F1'', frame_url = ''https://pay.example/other''\<rparr>"

definition tree3 :: frame_tree where
  "tree3 = FrameTree frame1 [FrameTree frame2 [], FrameTree frame3 []]"

definition browser3 :: browser where
  "browser3 = \<lparr>attach_answer = (\<lambda>tabId. None),
                getFrameTree_answer = (\<lambda>tabId. Inr tree3),
                createIsolatedWorld_answer = (\<lambda>tabId fr. Inr (length (frame_id fr) + length (frame_url fr))),
                evaluate_answer = (\<lambda>tabId ctx selector val.
                   if ctx = length (frame_id frame2) + length (frame_url frame2)
                   then Inr (Found val) else Inr NotFound)\<rparr>"

definition bridge0 :: bridge where
  "bridge0 = \<lparr>debuggerSessions = Map.empty, debugger_calls = []\<rparr>"

section \<open>Facts about digits and the Luhn loop\<close>

lemma digit_cases:
  "d < 10 \<Longrightarrow> d = 0 \<or> d = 1 \<or> d = 2 \<or> d = 3 \<or> d = 4 \<or> d = 5 \<or> d = 6 \<or> d = 7 \<or> d = 8 \<or> d = (9::nat)"
  by arith

lemma isDigit_digitChar: "isDigit (digitChar d)"
proof -
  have "d mod 10 < 10" by simp
  from digit_cases [OF this] show ?thesis
    by (auto simp: isDigit_def digitChar_def)
qed

lemma parseInt_digitChar: "d < 10 \<Longrightarrow> parseInt_char (digitChar d) = Some d"
  using digit_cases [of d] by (auto simp: parseInt_char_def digitChar_def)

lemma parseInt_isDigit: "isDigit c \<Longrightarrow> \<exists>d<10. parseInt_char c = Some d"
  by (auto simp: isDigit_def parseInt_char_def)

lemma toString_nat_digit: "d < 10 \<Longrightarrow> toString_nat d = [digitChar d]"
  by (subst toString_nat.simps) simp

lemma bit_length_le: "n < 2 ^ k \<Longrightarrow> bit_length n \<le> k"
proof (induction k arbitrary: n)
  case 0
  then have "n \<le> 0" by simp
  then show ?case by (subst bit_length.simps) simp
next
  case (Suc k)
  show ?case
  proof (cases "n \<le> 0")
    case True
    then show ?thesis by (subst bit_length.simps) simp
  next
    case False
    from Suc.prems have "n div 2 < 2 ^ k" by simp
    from Suc.IH [OF this] False show ?thesis by (subst bit_length.simps) simp
  qed
qed

lemma round53_nonneg: "0 \<le> n \<Longrightarrow> 0 \<le> round53 n"
  by (auto simp: round53_def Let_def pos_imp_zdiv_nonneg_iff)

lemma round53_le:
  assumes "0 \<le> n"
  shows "round53 n \<le> n + 2 ^ (bit_length n - 53 - 1)"
proof (cases "bit_length n - 53 = 0")
  case True
  then show ?thesis by (simp add: round53_def)
next
  case False
  define sh where "sh = bit_length n - 53"
  define half :: int where "half = 2 ^ (sh - 1)"
  define q where "q = n div (2 * half)"
  define r where "r = n mod (2 * half)"
  define X where "X = q * (2 * half)"
  from False have sh: "0 < sh" by (simp add: sh_def)
  then have P: "(2::int) ^ sh = 2 * half"
    by (cases sh) (simp_all add: half_def)
  have hp: "0 < half" by (simp add: half_def)
  have n: "n = X + r" unfolding X_def q_def r_def by (rule div_mult_mod_eq [symmetric])
  have r: "0 \<le> r" "r < 2 * half" using hp by (simp_all add: r_def)
  have up: "(q + 1) * (2 * half) = X + 2 * half" by (simp add: X_def algebra_simps)
  have "round53 n =
     (if r < half then q else if half < r then q + 1 else if even q then q else q + 1) * (2 * half)"
    unfolding round53_def Let_def sh_def [symmetric] half_def [symmetric] P
      q_def [symmetric] r_def [symmetric]
    using sh by simp
  also have "\<dots> \<le> n + half"
  proof (cases "r < half")
    case True
    with n r hp show ?thesis by (simp add: X_def [symmetric])
  next
    case False
    then have "(if r < half then q else if half < r then q + 1 else if even q then q else q + 1)
        * (2 * half) \<le> (q + 1) * (2 * half)"
      using hp by (intro mult_right_mono) auto
    also have "\<dots> \<le> n + half" using up n False by simp
    finally show ?thesis .
  qed
  finally show ?thesis by (simp add: half_def sh_def)
qed

lemma div_below:
  fixes a c :: int
  assumes "a < k * c" and "0 < c"
  shows "a div c < k"
proof (rule ccontr)
  assume "\<not> a div c < k"
  then have "k \<le> a div c" by simp
  then have "k * c \<le> a div c * c" using assms(2) by (intro mult_right_mono) simp_all
  moreover have "a = a div c * c + a mod c" by (rule div_mult_mod_eq [symmetric])
  moreover have "0 \<le> a mod c" using assms(2) by simp
  ultimately show False using assms(1) by linarith
qed

lemma floor_times_digit:
  assumes "0 \<le> mant r" "mant r < 2 ^ 53" "mant r < 2 ^ expo r"
  shows "0 \<le> floor_times r 10 \<and> floor_times r 10 < 10"
proof -
  define m where "m = mant r"
  define e where "e = expo r"
  note assms = assms [folded m_def e_def]
  have N: "0 \<le> m * 10" "m * 10 < 2 ^ 57" using assms by simp_all
  from bit_length_le [OF N(2)] have "bit_length (m * 10) - 53 - 1 \<le> 3" by simp
  then have "(2::int) ^ (bit_length (m * 10) - 53 - 1) \<le> 2 ^ 3"
    by (intro power_increasing) simp_all
  with round53_le [OF N(1)] have up: "round53 (m * 10) \<le> m * 10 + 8" by simp
  from assms(3) have "m + 1 \<le> 2 ^ e" by simp
  with up have lt: "round53 (m * 10) < 10 * 2 ^ e" by simp
  have pos: "(0::int) < 2 ^ e" by simp
  from lt pos have "round53 (m * 10) div 2 ^ e < 10" by (rule div_below)
  moreover from round53_nonneg [OF N(1)] have "0 \<le> round53 (m * 10) div 2 ^ e"
    by (simp add: pos_imp_zdiv_nonneg_iff)
  ultimately show ?thesis by (simp add: floor_times_def m_def e_def)
qed

text \<open>
  The floor is taken of the rounded product. The draw \<open>0.8999999999999999\<close> is
  \<open>8106479329266892 / 2 ^ 53\<close>; ten times it is below 9, the double nearest to that product
  is 9, and the digit the code gets is 9.
\<close>

lemma floor_times_rounded:
  "floor_times \<lparr>mant = 8106479329266892, expo = 53\<rparr> 10 = 9"
  "(8106479329266892 * 10) div 2 ^ 53 = (8 :: int)"
  "fst (randomDigit (\<lambda>i. \<lparr>mant = 8106479329266892, expo = 53\<rparr>, 0)) = ''9''"
  by code_simp+

lemma randomDigit_unit:
  assumes "unit_draws f"
  shows "\<exists>d<10. randomDigit (f, i) = ([digitChar d], (f, Suc i))"
proof -
  from assms have "0 \<le> mant (f i)" "mant (f i) < 2 ^ 53" "mant (f i) < 2 ^ expo (f i)"
    by (simp_all add: unit_draws_def)
  from floor_times_digit [OF this]
  have lo: "0 \<le> floor_times (f i) 10" and hi: "floor_times (f i) 10 < 10" by simp_all
  from lo hi have "nat (floor_times (f i) 10) < 10" by linarith
  moreover from lo have "randomDigit (f, i) = (toString_nat (nat (floor_times (f i) 10)), (f, Suc i))"
    by (simp add: randomDigit_def Math_random_def toString_int_def)
  ultimately show ?thesis
    by (auto simp: toString_nat_digit)
qed

lemma replace_x_digits:
  assumes "unit_draws f" and "\<forall>c\<in>set s. isDigit c \<or> c = CHR ''x''"
  shows "\<exists>r j. replace_x s (f, i) = (r, (f, j)) \<and> length r = length s \<and> (\<forall>c\<in>set r. isDigit c)"
  using assms(2)
proof (induction s arbitrary: i)
  case Nil
  then show ?case by simp
next
  case (Cons c cs)
  show ?case
  proof (cases "c = CHR ''x''")
    case True
    from randomDigit_unit [OF assms(1), of i] obtain d
      where d: "randomDigit (f, i) = ([digitChar d], (f, Suc i))" by blast
    from Cons.IH [of "Suc i"] Cons.prems obtain r j
      where r: "replace_x cs (f, Suc i) = (r, (f, j))" "length r = length cs" "\<forall>c\<in>set r. isDigit c"
      by auto
    from True d r show ?thesis by (simp add: isDigit_digitChar)
  next
    case False
    from Cons.IH [of i] Cons.prems obtain r j
      where r: "replace_x cs (f, i) = (r, (f, j))" "length r = length cs" "\<forall>c\<in>set r. isDigit c"
      by auto
    from False Cons.prems have "isDigit c" by simp
    with False r show ?thesis by simp
  qed
qed

lemma pad_loop_digits:
  assumes "unit_draws f"
  shows "\<forall>c\<in>set s. isDigit c \<Longrightarrow>
    \<exists>r j. pad_loop s b (f, i) = (r, (f, j)) \<and> (\<forall>c\<in>set r. isDigit c) \<and> b \<le> int (length r) \<and> length s \<le> length r"
proof (induction "nat (b - int (length s))" arbitrary: s i rule: less_induct)
  case less
  show ?case
  proof (cases "int (length s) < b")
    case False
    then show ?thesis using less.prems by (subst pad_loop.simps) simp
  next
    case True
    from randomDigit_unit [OF assms, of i] obtain d
      where d: "randomDigit (f, i) = ([digitChar d], (f, Suc i))" by blast
    have "nat (b - int (length (s @ [digitChar d]))) < nat (b - int (length s))"
      using True by simp
    moreover have "\<forall>c\<in>set (s @ [digitChar d]). isDigit c"
      using less.prems by (simp add: isDigit_digitChar)
    ultimately obtain r j where r: "pad_loop (s @ [digitChar d]) b (f, Suc i) = (r, (f, j))"
      "\<forall>c\<in>set r. isDigit c" "b \<le> int (length r)" "length (s @ [digitChar d]) \<le> length r"
      using less.hyps [of "s @ [digitChar d]" "Suc i"] by blast
    from True d r show ?thesis by (subst pad_loop.simps) simp
  qed
qed

lemma luhn_loop_digits:
  "\<forall>c\<in>set s. isDigit c \<Longrightarrow> \<exists>t. luhn_loop s (Some a) b = Some t"
proof (induction s arbitrary: a b)
  case Nil
  then show ?case by simp
next
  case (Cons c cs)
  then obtain d where "parseInt_char c = Some d" using parseInt_isDigit [of c] by auto
  with Cons show ?case by (simp add: Let_def)
qed

lemma calculateLuhnCheckDigit_digits:
  "\<forall>c\<in>set s. isDigit c \<Longrightarrow> \<exists>d<10. calculateLuhnCheckDigit s = Some d"
proof -
  assume "\<forall>c\<in>set s. isDigit c"
  then have "\<forall>c\<in>set (rev s). isDigit c" by simp
  from luhn_loop_digits [OF this, of 0 True] obtain t
    where "luhn_loop (rev s) (Some 0) True = Some t" by blast
  then show ?thesis by (simp add: calculateLuhnCheckDigit_def)
qed

lemma toLowerCase_char_digit: "isDigit c \<Longrightarrow> toLowerCase_char c = c"
  apply (simp only: isDigit_def list.set insert_iff empty_iff)
  apply (elim disjE)
  apply (simp_all add: toLowerCase_char_def)
  done

lemma toLowerCase_char_x: "toLowerCase_char (CHR ''x'') = CHR ''x''" "toLowerCase_char (CHR ''X'') = CHR ''x''"
  by (simp_all add: toLowerCase_char_def)

lemma toLowerCase_pattern:
  assumes "\<forall>c\<in>set p. isDigit c \<or> c = CHR ''x'' \<or> c = CHR ''X''"
  shows "\<forall>c\<in>set (toLowerCase p). isDigit c \<or> c = CHR ''x''"
proof
  fix c assume "c \<in> set (toLowerCase p)"
  then obtain c0 where c0: "c0 \<in> set p" "c = toLowerCase_char c0"
    by (auto simp: toLowerCase_def)
  with assms have "isDigit c0 \<or> c0 = CHR ''x'' \<or> c0 = CHR ''X''" by blast
  then show "isDigit c \<or> c = CHR ''x''"
    using c0(2) toLowerCase_char_digit [of c0] toLowerCase_char_x by auto
qed

section \<open>Facts about a run\<close>

lemma updateStatus_isRunning [simp]: "isRunning (updateStatus n m e s) = isRunning s"
  by (simp add: updateStatus_def)

lemma updateStatus_calls [simp]: "calls (updateStatus n m e s) = calls s"
  by (simp add: updateStatus_def)

lemma updateStatus_currentEmail [simp]: "currentEmail (updateStatus n m e s) = currentEmail s"
  by (simp add: updateStatus_def)

lemma updateStatuses_isRunning [simp]: "isRunning (updateStatuses sts s) = isRunning s"
  unfolding updateStatuses_def by (induction sts arbitrary: s) (auto simp: split_beta)

lemma updateStatuses_calls [simp]: "calls (updateStatuses sts s) = calls s"
  unfolding updateStatuses_def by (induction sts arbitrary: s) (auto simp: split_beta)

lemma updateStatuses_currentEmail [simp]: "currentEmail (updateStatuses sts s) = currentEmail s"
  unfolding updateStatuses_def by (induction sts arbitrary: s) (auto simp: split_beta)

lemma run_steps_isRunning: "isRunning (snd (run_steps st pg email cd fd s)) = isRunning s"
  by (simp add: run_steps_def Let_def split_beta)

lemma run_steps_currentEmail: "currentEmail (snd (run_steps st pg email cd fd s)) = currentEmail s"
  by (simp add: run_steps_def Let_def split_beta)

lemma runAutomation_body_completed:
  assumes "emails_of settings \<noteq> []"
  shows "\<exists>s' r. runAutomation_body st pg settings (s, db)
           = (s'\<lparr>isRunning := False\<rparr>, save_result settings (cursor_of settings) r db)
         \<and> rr_email r = emails_of settings ! (cursor_of settings mod length (emails_of settings))
         \<and> rr_timestamp r = toISOString pg
         \<and> currentEmail s' = Some (rr_email r)"
proof -
  define email where "email = emails_of settings ! (cursor_of settings mod length (emails_of settings))"
  define card where "card = fst (generate (orDefault (bin settings) ''4537890000000000'')
     (clock pg) (random pg))"
  define form where "form = \<lparr>fd_firstName = orDefault (firstName settings) ''John'',
                       fd_lastName = orDefault (lastName settings) ''Smith'',
                       fd_postalCode = orDefault (postalCode settings) ''SW1A 1AA''\<rparr>"
  define res where "res = run_steps st pg email card form (s\<lparr>currentEmail := Some email\<rparr>)"
  define r where "r = \<lparr>rr_email = email, rr_cardNumber = slice_last 4 (cardNumber card),
     rr_timestamp = toISOString pg, rr_success = fst res\<rparr>"
  have "runAutomation_body st pg settings (s, db)
      = ((snd res)\<lparr>isRunning := False\<rparr>, save_result settings (cursor_of settings) r db)"
    using assms
    by (simp add: runAutomation_body_def Let_def split_beta r_def res_def form_def card_def email_def)
  moreover have "currentEmail (snd res) = Some email"
    by (simp add: res_def run_steps_currentEmail)
  ultimately show ?thesis
    by (intro exI [of _ "snd res"] exI [of _ r]) (simp add: r_def email_def)
qed

lemma loaded_save_result:
  "loaded_settings (save_result st c r db) = st\<lparr>currentEmailIndex := Some (c + 1)\<rparr>"
  by (simp add: save_result_def loaded_settings_def Let_def)

lemma stored_save_result:
  "stored_results (save_result st c r db) = take 100 (r # stored_results db)"
  by (simp add: save_result_def stored_results_def Let_def)

lemma emails_of_cursor [simp]: "emails_of (st\<lparr>currentEmailIndex := c\<rparr>) = emails_of st"
  by (simp add: emails_of_def)

lemma cursor_of_update [simp]: "cursor_of (st\<lparr>currentEmailIndex := Some c\<rparr>) = c"
  by (simp add: cursor_of_def)

lemma runAutomation_completed:
  assumes "\<not> isRunning s" and "emails_of (loaded_settings db) \<noteq> []"
  shows "\<exists>s' r. runAutomation st pg (s, db)
           = (s'\<lparr>isRunning := False\<rparr>,
              save_result (loaded_settings db) (cursor_of (loaded_settings db)) r db)
         \<and> rr_email r = emails_of (loaded_settings db)
              ! (cursor_of (loaded_settings db) mod length (emails_of (loaded_settings db)))
         \<and> rr_timestamp r = toISOString pg
         \<and> currentEmail s' = Some (rr_email r)"
  using assms(1)
    runAutomation_body_completed [OF assms(2), where st = st and pg = pg
      and s = "s\<lparr>isRunning := True\<rparr>" and db = db]
  by (simp add: runAutomation_def)

lemma runs_cursor:
  assumes "emails_of (loaded_settings db) \<noteq> []"
  shows "\<not> isRunning s \<Longrightarrow>
    \<not> isRunning (fst (runs st pgs (s, db)))
    \<and> emails_of (loaded_settings (snd (runs st pgs (s, db)))) = emails_of (loaded_settings db)
    \<and> cursor_of (loaded_settings (snd (runs st pgs (s, db))))
        = cursor_of (loaded_settings db) + length pgs"
  using assms
proof (induction pgs arbitrary: s db)
  case Nil
  then show ?case by simp
next
  case (Cons pg pgs)
  from runAutomation_completed [OF Cons.prems(1) Cons.prems(2), of st pg] obtain s' r
    where run: "runAutomation st pg (s, db)
           = (s'\<lparr>isRunning := False\<rparr>,
              save_result (loaded_settings db) (cursor_of (loaded_settings db)) r db)"
    by blast
  let ?db = "save_result (loaded_settings db) (cursor_of (loaded_settings db)) r db"
  have e: "emails_of (loaded_settings ?db) = emails_of (loaded_settings db)"
    by (simp add: loaded_save_result)
  have c: "cursor_of (loaded_settings ?db) = cursor_of (loaded_settings db) + 1"
    by (simp add: loaded_save_result)
  have "\<not> isRunning (s'\<lparr>isRunning := False\<rparr>)" by simp
  moreover have "emails_of (loaded_settings ?db) \<noteq> []" using e Cons.prems(2) by simp
  ultimately have IH: "\<not> isRunning (fst (runs st pgs (s'\<lparr>isRunning := False\<rparr>, ?db)))
    \<and> emails_of (loaded_settings (snd (runs st pgs (s'\<lparr>isRunning := False\<rparr>, ?db)))) = emails_of (loaded_settings ?db)
    \<and> cursor_of (loaded_settings (snd (runs st pgs (s'\<lparr>isRunning := False\<rparr>, ?db))))
        = cursor_of (loaded_settings ?db) + length pgs"
    by (rule Cons.IH)
  show ?case using IH by (simp add: run e c)
qed

lemma runs_append: "runs st (pgs @ [pg]) sd = runAutomation st pg (runs st pgs sd)"
  by (induction pgs arbitrary: sd) simp_all

section \<open>What the generated record depends on\<close>












section \<open>Facts about step 3\<close>







lemma later_attempts_append [simp]:
  "later_attempts (xs @ ys) = later_attempts xs @ later_attempts ys"
  by (simp add: later_attempts_def)

lemma later_attempts_Status [simp]: "later_attempts [Status n m e] = []"
  by (simp add: later_attempts_def)

lemma later_attempts_start [simp]: "later_attempts (acts start_filling) = []"
  by (simp add: start_filling_def later_attempts_def later_field_def)

lemma final_status_later [simp]: "later_attempts [final_status r] = []"
  by (simp add: final_status_def later_attempts_def split: option.splits)





lemma fill_others_card [simp]: "fill_others (pg\<lparr>pp_card := c\<rparr>) cd fd f = fill_others pg cd fd f"
  by (simp add: fill_others_def)

section \<open>Facts about the waits\<close>

lemma ready_Some: "ready doc sel = Some e \<Longrightarrow> doc sel = Some e \<and> offsetParent e \<noteq> None"
  by (auto simp: ready_def split: option.splits if_splits)

lemma waitForElement_poll_found:
  "waitForElement_poll doc late sel timeout elapsed = Inr e \<Longrightarrow>
   \<exists>t<timeout. ready (doc t) sel = Some e"
proof (induction doc late sel timeout elapsed rule: waitForElement_poll.induct)
  case (1 doc late selector timeout elapsed)
  show ?case
  proof (cases "elapsed < timeout")
    case False
    with "1.prems" show ?thesis by (subst (asm) waitForElement_poll.simps) simp
  next
    case True
    show ?thesis
    proof (cases "ready (doc elapsed) selector")
      case None
      with True "1.prems"
      have "waitForElement_poll doc late selector timeout (elapsed + 200 + late elapsed) = Inr e"
        by (subst (asm) waitForElement_poll.simps) simp
      with "1.IH" [OF True None] show ?thesis by blast
    next
      case (Some a)
      with True "1.prems" have "a = e" by (subst (asm) waitForElement_poll.simps) simp
      with Some True show ?thesis by blast
    qed
  qed
qed

lemma waitForElement_poll_timeout:
  "\<forall>t<timeout. ready (doc t) sel = None \<Longrightarrow>
   waitForElement_poll doc late sel timeout elapsed = Inl (''Element not found: '' @ sel)"
proof (induction doc late sel timeout elapsed rule: waitForElement_poll.induct)
  case (1 doc late selector timeout elapsed)
  show ?case
  proof (cases "elapsed < timeout")
    case False
    then show ?thesis by (subst waitForElement_poll.simps) simp
  next
    case True
    with "1.prems" have none: "ready (doc elapsed) selector = None" by blast
    from "1.IH" [OF True none "1.prems"] True none show ?thesis
      by (subst waitForElement_poll.simps) simp
  qed
qed

lemma waitForElement_on_settled:
  "p \<noteq> Pending \<Longrightarrow> foldl (waitForElement_on sel) p evs = p"
  by (induction evs) (auto simp: waitForElement_on_def split: promise.splits)

lemma waitForElement_resolved:
  "foldl (waitForElement_on sel) Pending evs = Resolved e \<Longrightarrow>
   \<exists>d. Mutation d \<in> set evs \<and> ready d sel = Some e"
proof (induction evs)
  case Nil
  then show ?case by simp
next
  case (Cons ev evs)
  show ?case
  proof (cases "waitForElement_on sel Pending ev = Pending")
    case True
    with Cons show ?thesis by auto
  next
    case False
    with Cons.prems have "waitForElement_on sel Pending ev = Resolved e"
      by (simp add: waitForElement_on_settled)
    then obtain d where "ev = Mutation d" "ready d sel = Some e"
      by (auto simp: waitForElement_on_def split: dom_event.splits option.splits)
    then show ?thesis by auto
  qed
qed

lemma waitForElement_pending:
  "\<forall>d. Mutation d \<in> set evs \<longrightarrow> ready d sel = None \<Longrightarrow> TimerFired \<notin> set evs \<Longrightarrow>
   foldl (waitForElement_on sel) Pending evs = Pending"
proof (induction evs)
  case Nil
  then show ?case by simp
next
  case (Cons ev evs)
  then have "waitForElement_on sel Pending ev = Pending"
    by (cases ev) (auto simp: waitForElement_on_def)
  with Cons show ?case by simp
qed

lemma waitForElement_rejected_by_timer:
  "foldl (waitForElement_on sel) Pending evs = Rejected msg \<Longrightarrow>
   msg = ''Element not found: '' @ sel \<and> TimerFired \<in> set evs"
proof (induction evs)
  case Nil
  then show ?case by simp
next
  case (Cons ev evs)
  show ?case
  proof (cases "waitForElement_on sel Pending ev = Pending")
    case True
    with Cons show ?thesis by auto
  next
    case False
    with Cons.prems have "waitForElement_on sel Pending ev = Rejected msg"
      by (simp add: waitForElement_on_settled)
    then have "ev = TimerFired \<and> msg = ''Element not found: '' @ sel"
      by (auto simp: waitForElement_on_def split: dom_event.splits option.splits)
    then show ?thesis by auto
  qed
qed

lemma waitForCondition_on_settled:
  "p \<noteq> Pending \<Longrightarrow> foldl (waitForCondition_on c) p evs = p"
  by (induction evs) (auto simp: waitForCondition_on_def split: promise.splits)

lemma waitForCondition_rejected_by_timer:
  "foldl (waitForCondition_on c) Pending evs = Rejected msg \<Longrightarrow>
   msg = ''Timeout waiting for condition'' \<and> TimerFired \<in> set evs"
proof (induction evs)
  case Nil
  then show ?case by simp
next
  case (Cons ev evs)
  show ?case
  proof (cases "waitForCondition_on c Pending ev = Pending")
    case True
    with Cons show ?thesis by auto
  next
    case False
    with Cons.prems have "waitForCondition_on c Pending ev = Rejected msg"
      by (simp add: waitForCondition_on_settled)
    then have "ev = TimerFired \<and> msg = ''Timeout waiting for condition''"
      by (auto simp: waitForCondition_on_def split: dom_event.splits if_splits)
    then show ?thesis by auto
  qed
qed

lemma waiting_stop_invisible:
  "snd (foldl (waiting_step on_event) (s, p) inps) = foldl on_event p (dom_events inps)"
proof (induction inps arbitrary: s p)
  case Nil
  then show ?case by (simp add: dom_events_def)
next
  case (Cons inp inps)
  then show ?case
    by (cases inp) (simp_all add: waiting_step_def dom_events_def)
qed

lemma waitForElement_never_ready:
  "\<forall>d. Mutation d \<in> set evs \<longrightarrow> ready d sel = None \<Longrightarrow>
   foldl (waitForElement_on sel) Pending evs = Pending
   \<or> foldl (waitForElement_on sel) Pending evs = Rejected (''Element not found: '' @ sel)"
proof (induction evs)
  case Nil
  then show ?case by simp
next
  case (Cons ev evs)
  show ?case
  proof (cases ev)
    case (Mutation d)
    with Cons.prems have "waitForElement_on sel Pending ev = Pending"
      by (simp add: waitForElement_on_def)
    with Cons show ?thesis by simp
  next
    case TimerFired
    then have "waitForElement_on sel Pending ev = Rejected (''Element not found: '' @ sel)"
      by (simp add: waitForElement_on_def)
    then show ?thesis by (simp add: waitForElement_on_settled)
  qed
qed

lemma waitForElement_deadline:
  assumes "ready d sel = None" and "\<forall>m. Mutation m \<in> set pre \<longrightarrow> ready m sel = None"
  shows "waitForElement sel d (pre @ TimerFired # post) = Rejected (''Element not found: '' @ sel)"
proof -
  from assms(1) have start: "waitForElement_start sel d = Pending"
    by (simp add: waitForElement_start_def)
  from waitForElement_never_ready [OF assms(2)]
  have "waitForElement_on sel (foldl (waitForElement_on sel) Pending pre) TimerFired
      = Rejected (''Element not found: '' @ sel)"
    by (auto simp: waitForElement_on_def)
  then show ?thesis
    by (simp add: waitForElement_def start waitForElement_on_settled)
qed

lemma waitForElement_resolved_ready:
  assumes "waitForElement sel d evs = Resolved e"
  shows "ready d sel = Some e \<or> (\<exists>m. Mutation m \<in> set evs \<and> ready m sel = Some e)"
proof (cases "ready d sel")
  case None
  then have "waitForElement_start sel d = Pending" by (simp add: waitForElement_start_def)
  with assms have "foldl (waitForElement_on sel) Pending evs = Resolved e"
    by (simp add: waitForElement_def)
  from waitForElement_resolved [OF this] show ?thesis by blast
next
  case (Some a)
  then have "waitForElement_start sel d = Resolved a" by (simp add: waitForElement_start_def)
  with assms have "a = e" by (simp add: waitForElement_def waitForElement_on_settled)
  with Some show ?thesis by simp
qed

section \<open>Facts about the background worker\<close>

lemma push_children_preorder:
  "(\<And>c. c \<in> set cs \<Longrightarrow> getAllFrames c = preorder c) \<Longrightarrow>
   push_children frames cs = frames @ concat (map preorder cs)"
  by (induction cs arbitrary: frames) simp_all

lemma getAllFrames_preorder: "getAllFrames t = preorder t"
proof (induction t rule: preorder.induct)
  case (1 fr childFrames)
  then show ?case by (simp add: push_children_preorder)
qed

lemma attempted_called_world [simp]:
  "attempted (called (Call_createIsolatedWorld t fid) b) = attempted b @ [fid]"
  by (simp add: attempted_def called_def)

lemma attempted_called_evaluate [simp]:
  "attempted (called (Call_evaluate t ctx) b) = attempted b"
  by (simp add: attempted_def called_def)

lemma try_frames_skip:
  "found_in env tabId selector val fr = None \<Longrightarrow>
   \<exists>b'. try_frames env tabId selector val (fr # frames) b = try_frames env tabId selector val frames b'
        \<and> attempted b' = attempted b @ [frame_id fr]"
  by (auto simp: found_in_def Let_def split: sum.splits eval_result.splits)

lemma try_frames_hit:
  "found_in env tabId selector val fr = Some v \<Longrightarrow>
   fst (try_frames env tabId selector val (fr # frames) b) = Success (frame_id fr) v
   \<and> attempted (snd (try_frames env tabId selector val (fr # frames) b)) = attempted b @ [frame_id fr]"
  by (auto simp: found_in_def Let_def split: sum.splits eval_result.splits)

lemma try_frames_first:
  assumes "\<forall>f\<in>set pre. found_in env tabId selector val f = None"
    and "found_in env tabId selector val fr = Some v"
  shows "fst (try_frames env tabId selector val (pre @ fr # post) b) = Success (frame_id fr) v
    \<and> attempted (snd (try_frames env tabId selector val (pre @ fr # post) b))
        = attempted b @ map frame_id (pre @ [fr])"
  using assms(1)
proof (induction pre arbitrary: b)
  case Nil
  from try_frames_hit [OF assms(2), of post b] show ?case by simp
next
  case (Cons f pre)
  then have "found_in env tabId selector val f = None" by simp
  from try_frames_skip [OF this, of "pre @ fr # post" b] obtain b'
    where b': "try_frames env tabId selector val (f # pre @ fr # post) b
        = try_frames env tabId selector val (pre @ fr # post) b'"
      "attempted b' = attempted b @ [frame_id f]" by blast
  from Cons.IH [of b'] Cons.prems b' show ?case by simp
qed

lemma try_frames_none:
  "\<forall>f\<in>set frames. found_in env tabId selector val f = None \<Longrightarrow>
   fst (try_frames env tabId selector val frames b) = Failure ''Input not found in any frame''
   \<and> attempted (snd (try_frames env tabId selector val frames b)) = attempted b @ map frame_id frames"
proof (induction frames arbitrary: b)
  case Nil
  then show ?case by simp
next
  case (Cons f frames)
  then have "found_in env tabId selector val f = None" by simp
  from try_frames_skip [OF this, of frames b] obtain b'
    where b': "try_frames env tabId selector val (f # frames) b
        = try_frames env tabId selector val frames b'"
      "attempted b' = attempted b @ [frame_id f]" by blast
  from Cons.IH [of b'] Cons.prems b' show ?case by simp
qed

lemma fillIframeField_returns: "\<exists>r. fst (fillIframeField env tabId selector val b) = Inr r"
  by (simp add: fillIframeField_def split: prod.splits sum.splits)

lemma attachDebugger_attempted: "attempted (snd (attachDebugger env tabId b)) = attempted b"
  by (simp add: attachDebugger_def attempted_def called_def split: option.splits)


lemma fillIframeField_frames:
  assumes "fst (attachDebugger env tabId b) = Inr ok"
    and "getFrameTree_answer env tabId = Inr frameTree"
  shows "fillIframeField env tabId selector val b
    = (Inr (fst (try_frames env tabId selector val (preorder frameTree)
               (called (Call_getFrameTree tabId) (snd (attachDebugger env tabId b))))),
       snd (try_frames env tabId selector val (preorder frameTree)
               (called (Call_getFrameTree tabId) (snd (attachDebugger env tabId b)))))"
  using assms
  by (cases "attachDebugger env tabId b")
    (simp add: fillIframeField_def fillIframeField_try_def Let_def getAllFrames_preorder split_beta)

lemma attachDebugger_registered:
  "debuggerSessions b tabId \<noteq> None \<Longrightarrow> attachDebugger env tabId b = (Inr True, b)"
  by (simp add: attachDebugger_def)

lemma attachDebugger_success_registers:
  "fst (attachDebugger env tabId b) = Inr ok \<Longrightarrow>
   debuggerSessions (snd (attachDebugger env tabId b)) tabId \<noteq> None"
  by (auto simp: attachDebugger_def called_def split: if_splits option.splits)

lemma attach_twice_once: "attach_twice env tabId b = attachDebugger env tabId b"
proof (cases "attachDebugger env tabId b")
  case (Pair r b1)
  show ?thesis
  proof (cases r)
    case (Inl err)
    with Pair show ?thesis by (simp add: attach_twice_def)
  next
    case (Inr ok)
    with Pair attachDebugger_success_registers [of env tabId b ok]
    have "debuggerSessions b1 tabId \<noteq> None" by simp
    then have "attachDebugger env tabId b1 = (Inr True, b1)" by (rule attachDebugger_registered)
    moreover from Pair Inr have "ok = True"
      by (auto simp: attachDebugger_def split: if_splits option.splits)
    ultimately show ?thesis using Pair Inr by (simp add: attach_twice_def)
  qed
qed

lemma attachDebugger_calls:
  "\<exists>new. debugger_calls (snd (attachDebugger env tabId b)) = debugger_calls b @ new
     \<and> length new \<le> 1 \<and> (debuggerSessions b tabId \<noteq> None \<longrightarrow> new = [])"
  by (auto simp: attachDebugger_def called_def split: option.splits)

lemma live_called [simp]: "live_sessions t (called c b) = session_step t (live_sessions t b) c"
  by (simp add: live_sessions_def called_def)

lemma live_sessions_update [simp]:
  "live_sessions t (b\<lparr>debuggerSessions := m\<rparr>) = live_sessions t b"
  by (simp add: live_sessions_def)

lemma debuggerSessions_called [simp]: "debuggerSessions (called c b) = debuggerSessions b"
  by (simp add: called_def)

lemma registry_exact_attach:
  "registry_exact b \<Longrightarrow> registry_exact (snd (attachDebugger env tabId b))"
  by (auto simp: registry_exact_def attachDebugger_def session_step_def split: option.splits)

lemma registry_exact_detach:
  "registry_exact b \<Longrightarrow> registry_exact (detachDebugger tabId b)"
  by (auto simp: registry_exact_def detachDebugger_def session_step_def)

lemma try_frames_sessions:
  "debuggerSessions (snd (try_frames env tabId selector val frames b)) = debuggerSessions b
   \<and> live_sessions t (snd (try_frames env tabId selector val frames b)) = live_sessions t b"
proof (induction frames arbitrary: b)
  case Nil
  then show ?case by simp
next
  case (Cons f frames)
  show ?case
    by (simp add: Let_def Cons.IH session_step_def split: sum.splits eval_result.splits)
qed

lemma registry_exact_try_frames:
  "registry_exact b \<Longrightarrow> registry_exact (snd (try_frames env tabId selector val frames b))"
  by (simp add: registry_exact_def try_frames_sessions)

lemma registry_exact_called_getFrameTree:
  "registry_exact b \<Longrightarrow> registry_exact (called (Call_getFrameTree tabId) b)"
  by (simp add: registry_exact_def session_step_def)

lemma registry_exact_fill:
  assumes "registry_exact b"
  shows "registry_exact (snd (fillIframeField env tabId selector val b))"
proof -
  note a = registry_exact_attach [OF assms, of env tabId]
  note g = registry_exact_called_getFrameTree [OF a, of tabId]
  note f = registry_exact_try_frames [OF g]
  show ?thesis
    using a g f
    by (cases "attachDebugger env tabId b")
      (auto simp: fillIframeField_def fillIframeField_try_def Let_def split_beta split: sum.splits)
qed

lemma registry_exact_serve: "registry_exact b \<Longrightarrow> registry_exact (serve b er)"
  by (cases er) (auto simp: serve_def registry_exact_fill registry_exact_detach split: bridge_request.splits)

lemma registry_exact_served:
  "registry_exact b \<Longrightarrow> registry_exact (foldl serve b ers)"
  by (induction ers arbitrary: b) (simp_all add: registry_exact_serve)

lemma registry_exact_bridge0: "registry_exact bridge0"
  by (simp add: registry_exact_def bridge0_def live_sessions_def)

lemma registry_exact_le: "registry_exact b \<Longrightarrow> live_sessions t b \<le> 1"
  by (simp add: registry_exact_def)

section \<open>The loop of the code and Luhn's formula\<close>

lemma digit_value_digitChar: "d < 10 \<Longrightarrow> digit_value (digitChar d) = d"
  using digit_cases [of d] by (auto simp: digit_value_def digitChar_def)

lemma parseInt_digit_value: "isDigit c \<Longrightarrow> parseInt_char c = Some (digit_value c)"
  by (auto simp: isDigit_def parseInt_char_def digit_value_def)

lemma digit_value_less: "isDigit c \<Longrightarrow> digit_value c < 10"
  by (auto simp: isDigit_def digit_value_def)

lemma luhn_loop_weighted:
  "\<forall>c\<in>set cs. isDigit c \<Longrightarrow>
   luhn_loop cs (Some a) b = Some (a + weighted b (map digit_value cs))"
  by (induction cs arbitrary: a b)
    (simp_all add: parseInt_digit_value Let_def luhn_double_def mult.commute)

lemma weighted_positions:
  "weighted b xs = sum_list (map (\<lambda>i. if even i = b then luhn_double (xs ! i) else xs ! i) [0..<length xs])"
proof (induction xs arbitrary: b)
  case Nil
  then show ?case by simp
next
  case (Cons x xs)
  have "[0..<length (x # xs)] = 0 # map Suc [0..<length xs]"
    by (simp add: upt_conv_Cons map_Suc_upt del: upt_Suc)
  moreover have "\<And>i::nat. (even i = (\<not> b)) = (odd i = b)" by auto
  ultimately show ?case by (simp add: Cons.IH o_def del: upt_Suc cong: if_cong)
qed

lemma luhn_total_weighted: "luhn_total ds = weighted False (rev ds)"
  by (simp add: luhn_total_def weighted_positions)

lemma luhn_valid_snoc: "luhn_valid (ds @ [d]) = ((d + weighted True (rev ds)) mod 10 = 0)"
  by (simp add: luhn_valid_def luhn_total_weighted)

lemma calculateLuhnCheckDigit_weighted:
  assumes "\<forall>c\<in>set s. isDigit c"
  shows "calculateLuhnCheckDigit s = Some ((10 - weighted True (rev (map digit_value s)) mod 10) mod 10)"
proof -
  from assms have "\<forall>c\<in>set (rev s). isDigit c" by simp
  from luhn_loop_weighted [OF this, of 0 True] show ?thesis
    by (simp add: calculateLuhnCheckDigit_def rev_map)
qed


lemma check_digit_unique:
  fixes d t :: nat
  assumes "d < 10"
  shows "((d + t) mod 10 = 0) = ((10 - t mod 10) mod 10 = d)"
proof -
  define r where "r = t mod 10"
  have r: "r < 10" by (simp add: r_def)
  have "(d + t) mod 10 = (d + r) mod 10" by (simp add: r_def mod_add_right_eq)
  also have "\<dots> = (if d + r < 10 then d + r else d + r - 10)"
    using assms r by (simp add: le_mod_geq)
  finally have lhs: "(d + t) mod 10 = (if d + r < 10 then d + r else d + r - 10)" .
  have rhs: "(10 - r) mod 10 = (if r = 0 then 0 else 10 - r)" using r by simp
  show ?thesis unfolding r_def [symmetric] lhs rhs using assms r by auto
qed

lemma calculateLuhnCheckDigit_luhn_valid:
  assumes "\<forall>c\<in>set s. isDigit c" and "d < 10"
  shows "luhn_valid (map digit_value s @ [d]) = (calculateLuhnCheckDigit s = Some d)"
  using check_digit_unique [OF assms(2), of "weighted True (rev (map digit_value s))"]
  by (simp add: luhn_valid_snoc calculateLuhnCheckDigit_weighted [OF assms(1)])

lemma validateLuhn_luhn_valid:
  assumes dig: "\<forall>c\<in>set t. isDigit c" and len: "13 \<le> length t" "length t \<le> 19"
  shows "validateLuhn t = luhn_valid (map digit_value t)"
proof -
  from len have ne: "t \<noteq> []" by auto
  then have t: "butlast t @ [last t] = t" by simp
  have b: "\<forall>c\<in>set (butlast t). isDigit c" using dig by (auto dest: in_set_butlastD)
  have l: "isDigit (last t)" using dig ne by simp
  have filt: "filter isDigit t = t" using dig by simp
  from calculateLuhnCheckDigit_digits [OF b] obtain a
    where a: "calculateLuhnCheckDigit (butlast t) = Some a" by blast
  have "validateLuhn t = (calculateLuhnCheckDigit (butlast t) = Some (digit_value (last t)))"
    unfolding validateLuhn_def filt using len a
    by (simp add: Let_def parseInt_digit_value [OF l])
  also have "\<dots> = luhn_valid (map digit_value (butlast t) @ [digit_value (last t)])"
    by (rule calculateLuhnCheckDigit_luhn_valid [OF b digit_value_less [OF l], symmetric])
  also have "map digit_value (butlast t) @ [digit_value (last t)] = map digit_value (butlast t @ [last t])"
    by simp
  finally show ?thesis unfolding t .
qed

lemma luhn_known:
  "luhn_valid (map digit_value ''79927398713'')"
  "\<not> luhn_valid (map digit_value ''79927398714'')"
  "luhn_valid (map digit_value ''4111111111111111'')"
  by (simp_all add: luhn_valid_def luhn_total_def luhn_double_def digit_value_def)

section \<open>The check digit of a generated card number\<close>

lemma generateCardNumber_shape:
  assumes pat: "\<forall>c\<in>set binPattern. isDigit c \<or> c = CHR ''x'' \<or> c = CHR ''X''"
    and draws: "unit_draws draws"
  shows "\<exists>body d. fst (generateCardNumber binPattern 16 (draws, pos)) = body @ [digitChar d]
           \<and> length body = 15 \<and> (\<forall>c\<in>set body. isDigit c) \<and> d < 10
           \<and> calculateLuhnCheckDigit body = Some d
           \<and> validateLuhn (fst (generateCardNumber binPattern 16 (draws, pos)))"
proof -
  from replace_x_digits [OF draws toLowerCase_pattern [OF pat], of pos] obtain r j
    where r: "replace_x (toLowerCase binPattern) (draws, pos) = (r, (draws, j))"
      "\<forall>c\<in>set r. isDigit c" by blast
  from pad_loop_digits [OF draws r(2), of 15 j] obtain q k
    where q: "pad_loop r 15 (draws, j) = (q, (draws, k))" "\<forall>c\<in>set q. isDigit c"
      "15 \<le> int (length q)" by blast
  define body where "body = take 15 q"
  have len: "length body = 15" using q(3) by (simp add: body_def)
  have dig: "\<forall>c\<in>set body. isDigit c" using q(2) by (auto simp: body_def dest: in_set_takeD)
  from calculateLuhnCheckDigit_digits [OF dig] obtain d
    where d: "d < 10" "calculateLuhnCheckDigit body = Some d" by blast
  have gen: "fst (generateCardNumber binPattern 16 (draws, pos)) = body @ [digitChar d]"
    using r(1) q(1) d by (simp add: generateCardNumber_def slice_to_def body_def toString_nat_digit)
  have filt: "filter isDigit (body @ [digitChar d]) = body @ [digitChar d]"
    using dig by (simp add: isDigit_digitChar)
  have "validateLuhn (body @ [digitChar d])"
    unfolding validateLuhn_def filt using len d by (simp add: parseInt_digitChar)
  then have val: "validateLuhn (fst (generateCardNumber binPattern 16 (draws, pos)))"
    by (simp only: gen)
  from gen len dig d val show ?thesis by blast
qed

text \<open>
  Claim C10. For every pattern made of decimal digits and the wildcards \<open>x\<close> and \<open>X\<close>, and
  for every sequence of draws of \<open>Math.random\<close> (doubles in \<open>[0, 1)\<close>),
  \<open>generateCardNumber(pattern, 16)\<close> returns exactly 16 decimal digits. The number satisfies
  Luhn's formula as it is stated apart from the code (\<open>luhn_valid\<close>), and its last digit is
  the only digit that completes its first 15 to a number satisfying the formula: it is their
  Luhn check digit. It is also what \<open>calculateLuhnCheckDigit\<close> returns on the first 15, and
  \<open>validateLuhn\<close> accepts the number.
\<close>

theorem generateCardNumber_luhn_valid:
  assumes "\<forall>c\<in>set binPattern. isDigit c \<or> c = CHR ''x'' \<or> c = CHR ''X''"
    and "unit_draws draws"
  shows "length (fst (generateCardNumber binPattern 16 (draws, pos))) = 16
    \<and> (\<forall>c\<in>set (fst (generateCardNumber binPattern 16 (draws, pos))). isDigit c)
    \<and> luhn_valid (map digit_value (fst (generateCardNumber binPattern 16 (draws, pos))))
    \<and> (\<forall>d<10. luhn_valid (map digit_value (butlast (fst (generateCardNumber binPattern 16 (draws, pos)))) @ [d])
          \<longrightarrow> d = digit_value (last (fst (generateCardNumber binPattern 16 (draws, pos)))))
    \<and> calculateLuhnCheckDigit (butlast (fst (generateCardNumber binPattern 16 (draws, pos))))
        = parseInt_char (last (fst (generateCardNumber binPattern 16 (draws, pos))))
    \<and> parseInt_char (last (fst (generateCardNumber binPattern 16 (draws, pos))))
        = Some (digit_value (last (fst (generateCardNumber binPattern 16 (draws, pos)))))
    \<and> validateLuhn (fst (generateCardNumber binPattern 16 (draws, pos)))"
proof -
  from generateCardNumber_shape [OF assms, of pos] obtain body d
    where s: "fst (generateCardNumber binPattern 16 (draws, pos)) = body @ [digitChar d]"
      and len: "length body = 15" and dig: "\<forall>c\<in>set body. isDigit c" and d: "d < 10"
      and chk: "calculateLuhnCheckDigit body = Some d"
      and val: "validateLuhn (fst (generateCardNumber binPattern 16 (draws, pos)))"
    by blast
  have "length (body @ [digitChar d]) = 16" using len by simp
  moreover have "\<forall>c\<in>set (body @ [digitChar d]). isDigit c"
    using dig by (simp add: isDigit_digitChar)
  moreover have "luhn_valid (map digit_value (body @ [digitChar d]))"
    using calculateLuhnCheckDigit_luhn_valid [OF dig d] chk d
    by (simp add: digit_value_digitChar)
  moreover have "\<forall>e<10. luhn_valid (map digit_value (butlast (body @ [digitChar d])) @ [e])
      \<longrightarrow> e = digit_value (last (body @ [digitChar d]))"
  proof (intro allI impI)
    fix e :: nat
    assume e: "e < 10"
      and "luhn_valid (map digit_value (butlast (body @ [digitChar d])) @ [e])"
    then have "luhn_valid (map digit_value body @ [e])" by simp
    with calculateLuhnCheckDigit_luhn_valid [OF dig e] chk have "e = d" by simp
    then show "e = digit_value (last (body @ [digitChar d]))"
      using d by (simp add: digit_value_digitChar)
  qed
  moreover have "calculateLuhnCheckDigit (butlast (body @ [digitChar d]))
      = parseInt_char (last (body @ [digitChar d]))"
    using chk d by (simp add: parseInt_digitChar)
  moreover have "parseInt_char (last (body @ [digitChar d]))
      = Some (digit_value (last (body @ [digitChar d])))"
    using d by (simp add: parseInt_digitChar digit_value_digitChar)
  ultimately show ?thesis using val unfolding s by blast
qed

lemma unit_draws0: "unit_draws draws0"
  by (simp add: unit_draws_def draws0_def)

theorem generateCardNumber_luhn_valid_witness:
  "list_all (\<lambda>c. isDigit c \<or> c = CHR ''x'' \<or> c = CHR ''X'') ''453789xxxxxxxxXX''
   \<and> unit_draws draws0
   \<and> fst (generateCardNumber ''453789xxxxxxxxXX'' 16 (draws0, 0)) = ''4537893737373730''
   \<and> luhn_valid (map digit_value ''4537893737373730'')
   \<and> \<not> luhn_valid (map digit_value ''453789373737373'' @ [5])
   \<and> validateLuhn ''4537893737373730''"
proof -
  have pat: "\<forall>c\<in>set ''453789xxxxxxxxXX''. isDigit c \<or> c = CHR ''x'' \<or> c = CHR ''X''"
    by (simp add: isDigit_def)
  have val: "fst (generateCardNumber ''453789xxxxxxxxXX'' 16 (draws0, 0)) = ''4537893737373730''"
    by code_simp
  have pat': "list_all (\<lambda>c. isDigit c \<or> c = CHR ''x'' \<or> c = CHR ''X'') ''453789xxxxxxxxXX''"
    using pat by (simp only: list_all_iff)
  note th = generateCardNumber_luhn_valid [OF pat unit_draws0, of 0, unfolded val]
  from th have v: "luhn_valid (map digit_value ''4537893737373730'')"
    and w: "validateLuhn ''4537893737373730''" by blast+
  from th have "\<forall>d<10. luhn_valid (map digit_value (butlast ''4537893737373730'') @ [d])
      \<longrightarrow> d = digit_value (last ''4537893737373730'')" by blast
  then have "luhn_valid (map digit_value (butlast ''4537893737373730'') @ [5])
      \<longrightarrow> (5::nat) = digit_value (last ''4537893737373730'')" by simp
  then have u: "\<not> luhn_valid (map digit_value ''453789373737373'' @ [5])"
    by (simp add: digit_value_def)
  from pat' unit_draws0 val v u w show ?thesis by blast
qed

section \<open>The cursor\<close>

text \<open>
  Claim C1, as the code has it. A run that starts (no run active, at least one identifier)
  stores \<open>cursor + 1\<close> whatever the steps return: the stored value is not reduced modulo
  the length of the list. The reduction is made on reading: the run uses the identifier at
  index \<open>cursor mod N\<close>. So after \<open>K\<close> runs, one after the other, the stored cursor is
  \<open>cursor + K\<close> and the next run uses the identifier at index \<open>(cursor + K) mod N\<close>.
\<close>

theorem cursor_advances_by_one:
  assumes "\<not> isRunning s" and "emails_of (loaded_settings db) \<noteq> []"
  shows "cursor_of (loaded_settings (snd (runAutomation st pg (s, db))))
           = cursor_of (loaded_settings db) + 1
    \<and> cursor_of (loaded_settings (snd (runs st pgs (s, db))))
           = cursor_of (loaded_settings db) + length pgs
    \<and> currentEmail (fst (runs st (pgs @ [pg]) (s, db)))
           = Some (emails_of (loaded_settings db)
                   ! ((cursor_of (loaded_settings db) + length pgs)
                      mod length (emails_of (loaded_settings db))))"
proof -
  from runAutomation_completed [OF assms, of st pg] obtain s1 r1
    where one: "runAutomation st pg (s, db)
           = (s1\<lparr>isRunning := False\<rparr>,
              save_result (loaded_settings db) (cursor_of (loaded_settings db)) r1 db)"
    by blast
  have first: "cursor_of (loaded_settings (snd (runAutomation st pg (s, db))))
           = cursor_of (loaded_settings db) + 1"
    by (simp add: one loaded_save_result)
  from runs_cursor [OF assms(2) assms(1), of st pgs]
  have idle: "\<not> isRunning (fst (runs st pgs (s, db)))"
    and same: "emails_of (loaded_settings (snd (runs st pgs (s, db)))) = emails_of (loaded_settings db)"
    and many: "cursor_of (loaded_settings (snd (runs st pgs (s, db))))
        = cursor_of (loaded_settings db) + length pgs"
    by simp_all
  obtain sK dbK where K: "runs st pgs (s, db) = (sK, dbK)" by (cases "runs st pgs (s, db)")
  from idle same many K assms(2)
  have "\<not> isRunning sK" and eK: "emails_of (loaded_settings dbK) = emails_of (loaded_settings db)"
    and cK: "cursor_of (loaded_settings dbK) = cursor_of (loaded_settings db) + length pgs"
    and "emails_of (loaded_settings dbK) \<noteq> []"
    by simp_all
  from runAutomation_completed [OF this(1) this(4), of st pg] obtain s2 r2
    where two: "runAutomation st pg (sK, dbK)
           = (s2\<lparr>isRunning := False\<rparr>,
              save_result (loaded_settings dbK) (cursor_of (loaded_settings dbK)) r2 dbK)"
      and "rr_email r2 = emails_of (loaded_settings dbK)
              ! (cursor_of (loaded_settings dbK) mod length (emails_of (loaded_settings dbK)))"
      and "currentEmail s2 = Some (rr_email r2)"
    by blast
  then have "currentEmail (fst (runs st (pgs @ [pg]) (s, db)))
           = Some (emails_of (loaded_settings db)
                   ! ((cursor_of (loaded_settings db) + length pgs)
                      mod length (emails_of (loaded_settings db))))"
    by (simp add: runs_append K eK cK)
  with first many show ?thesis by blast
qed

theorem cursor_advances_by_one_witness:
  "\<not> isRunning idle0
   \<and> emails_of (loaded_settings db0) = [''a@x'', ''b@x'', ''c@x'']
   \<and> cursor_of (loaded_settings db0) = 2
   \<and> cursor_of (loaded_settings (snd (runs steps0 [page0, page0] (idle0, db0)))) = 4
   \<and> currentEmail (fst (runs steps0 ([page0, page0] @ [page0]) (idle0, db0))) = Some ''b@x''"
proof -
  have idle: "\<not> isRunning idle0" by (simp add: idle0_def)
  have emails: "emails_of (loaded_settings db0) = [''a@x'', ''b@x'', ''c@x'']" by code_simp
  have cur: "cursor_of (loaded_settings db0) = 2" by code_simp
  from emails have ne: "emails_of (loaded_settings db0) \<noteq> []" by simp
  from cursor_advances_by_one [OF idle ne, of steps0 page0 "[page0, page0]"]
  have "cursor_of (loaded_settings (snd (runs steps0 [page0, page0] (idle0, db0)))) = 4"
    and "currentEmail (fst (runs steps0 ([page0, page0] @ [page0]) (idle0, db0))) = Some ''b@x''"
    by (simp_all add: emails cur)
  with idle emails cur show ?thesis by blast
qed

text \<open>
  The claim as the specification words it fails: with three identifiers and the cursor at 2,
  a run stores 3, not \<open>(2 + 1) mod 3 = 0\<close>.
\<close>

theorem cursor_not_reduced_counterexample:
  "cursor_of (loaded_settings (snd (runAutomation steps0 page0 (idle0, db0)))) = 3
   \<and> (cursor_of (loaded_settings db0) + 1) mod length (emails_of (loaded_settings db0)) = 0"
  by code_simp

section \<open>The ledger\<close>

text \<open>
  Claim C2. A run that starts puts its result in front of the stored ledger and keeps the
  first 100 entries: the new entry is at position 0, the stored ledger never holds more than
  100 entries, and a ledger that held 100 entries loses its last (oldest) one.
\<close>

theorem ledger_newest_first_bounded:
  assumes "\<not> isRunning s" and "emails_of (loaded_settings db) \<noteq> []"
  shows "\<exists>r. stored_results (snd (runAutomation st pg (s, db))) = take 100 (r # stored_results db)
     \<and> rr_email r = emails_of (loaded_settings db)
          ! (cursor_of (loaded_settings db) mod length (emails_of (loaded_settings db)))
     \<and> rr_timestamp r = toISOString pg
     \<and> stored_results (snd (runAutomation st pg (s, db))) ! 0 = r
     \<and> length (stored_results (snd (runAutomation st pg (s, db)))) \<le> 100
     \<and> (length (stored_results db) = 100 \<longrightarrow>
          stored_results (snd (runAutomation st pg (s, db))) = r # butlast (stored_results db))"
proof -
  from runAutomation_completed [OF assms, of st pg] obtain s1 r
    where run: "runAutomation st pg (s, db)
           = (s1\<lparr>isRunning := False\<rparr>,
              save_result (loaded_settings db) (cursor_of (loaded_settings db)) r db)"
      and email: "rr_email r = emails_of (loaded_settings db)
              ! (cursor_of (loaded_settings db) mod length (emails_of (loaded_settings db)))"
      and time: "rr_timestamp r = toISOString pg"
    by blast
  have res: "stored_results (snd (runAutomation st pg (s, db))) = take 100 (r # stored_results db)"
    by (simp add: run stored_save_result)
  have full: "length (stored_results db) = 100 \<longrightarrow>
      take 100 (r # stored_results db) = r # butlast (stored_results db)"
    by (simp add: butlast_conv_take)
  have "take 100 (r # stored_results db) ! 0 = r" by simp
  moreover have "length (take 100 (r # stored_results db)) \<le> 100" by simp
  ultimately show ?thesis using res email time full
    by (intro exI [of _ r]) (simp only: simp_thms)
qed

theorem ledger_newest_first_bounded_witness:
  "\<not> isRunning idle0
   \<and> emails_of (loaded_settings db_full) = [''a@x'', ''b@x'', ''c@x'']
   \<and> length (stored_results db_full) = 100
   \<and> length (stored_results (snd (runAutomation steps0 page0 (idle0, db_full)))) = 100
   \<and> rr_email (stored_results (snd (runAutomation steps0 page0 (idle0, db_full))) ! 0) = ''c@x''
   \<and> tl (stored_results (snd (runAutomation steps0 page0 (idle0, db_full))))
       = butlast (stored_results db_full)"
proof -
  have idle: "\<not> isRunning idle0" by (simp add: idle0_def)
  have set: "loaded_settings db_full = loaded_settings db0"
    by (simp add: db_full_def loaded_settings_def)
  have emails: "emails_of (loaded_settings db_full) = [''a@x'', ''b@x'', ''c@x'']"
    unfolding set by code_simp
  have cur: "cursor_of (loaded_settings db_full) = 2"
    unfolding set by code_simp
  have len: "length (stored_results db_full) = 100"
    by (simp add: db_full_def stored_results_def)
  from emails have ne: "emails_of (loaded_settings db_full) \<noteq> []" by simp
  from ledger_newest_first_bounded [OF idle ne, of steps0 page0] obtain r
    where "stored_results (snd (runAutomation steps0 page0 (idle0, db_full))) ! 0 = r"
      and "rr_email r = emails_of (loaded_settings db_full)
          ! (cursor_of (loaded_settings db_full) mod length (emails_of (loaded_settings db_full)))"
      and "length (stored_results db_full) = 100 \<longrightarrow>
          stored_results (snd (runAutomation steps0 page0 (idle0, db_full)))
            = r # butlast (stored_results db_full)"
    by blast
  with len have "rr_email (stored_results (snd (runAutomation steps0 page0 (idle0, db_full))) ! 0) = ''c@x''"
    and "stored_results (snd (runAutomation steps0 page0 (idle0, db_full)))
            = r # butlast (stored_results db_full)"
    by (simp_all add: emails cur)
  then have "rr_email (stored_results (snd (runAutomation steps0 page0 (idle0, db_full))) ! 0) = ''c@x''"
    and "length (stored_results (snd (runAutomation steps0 page0 (idle0, db_full)))) = 100"
    and "tl (stored_results (snd (runAutomation steps0 page0 (idle0, db_full))))
       = butlast (stored_results db_full)"
    using len by simp_all
  with idle emails len show ?thesis by blast
qed

section \<open>Start requests and the flag \<open>isRunning\<close>\<close>

text \<open>
  What the two guards of \<open>runAutomation\<close> do. A call that finds the flag set changes
  nothing. A call with no identifier configured calls no step function and leaves the
  storage as it was. A second start request that arrives right after the first finds the
  flag set.
\<close>

lemma runAutomation_flag_set: "isRunning s \<Longrightarrow> runAutomation st pg (s, db) = (s, db)"
  by (simp add: runAutomation_def)

lemma runAutomation_body_no_emails:
  assumes "emails_of settings = []"
  shows "snd (runAutomation_body st pg settings (s, db)) = db"
    and "calls (fst (runAutomation_body st pg settings (s, db))) = calls s"
  using assms by (simp_all add: runAutomation_body_def Let_def)

lemma runAutomation_no_emails:
  assumes "emails_of (loaded_settings db) = []"
  shows "snd (runAutomation st pg (s, db)) = db"
    and "calls (fst (runAutomation st pg (s, db))) = calls s"
  using runAutomation_body_no_emails [OF assms, of st pg "s\<lparr>isRunning := True\<rparr>" db]
  by (simp_all add: runAutomation_def)

lemma handle_start_again: "isRunning (tab_session t) \<Longrightarrow> handle_event st t Start = t"
  by (simp add: handle_event_def)

lemma handle_start_twice:
  "handle_events st t (Start # Start # evs) = handle_events st t (Start # evs)"
proof -
  have "isRunning (tab_session (handle_event st t Start))"
    by (simp add: handle_event_def)
  then have "handle_event st (handle_event st t Start) Start = handle_event st t Start"
    by (rule handle_start_again)
  then show ?thesis by (simp add: handle_events_def)
qed

text \<open>
  Claim C3. A start request that arrives while a run is active is to run no step, record
  no result and leave the cursor. The guard of \<open>runAutomation\<close> tests the flag
  \<open>state.isRunning\<close> for this, and the handler of \<open>STOP_AUTOMATION\<close> clears the flag of a run
  that goes on. With three identifiers, the cursor at 2 and an empty ledger, the messages
  start, stop, start arrive while the first run is suspended. Two runs are then suspended
  and nothing is recorded yet. When both have gone on to their ends, the step functions
  have been called twice over and the ledger holds two results, both for the third
  identifier, where the first run alone would have left one; both runs stored the
  cursor 3.
\<close>

theorem start_after_stop_runs_again:
  "length (suspended (handle_events steps0 tab0 [Start, Stop, Start])) = 2
   \<and> stored_results (tab_storage (handle_events steps0 tab0 [Start, Stop, Start])) = []
   \<and> map rr_email (stored_results (tab_storage
        (handle_events steps0 tab0 [Start, Stop, Resume page0]))) = [''c@x'']
   \<and> calls (tab_session (handle_events steps0 tab0 [Start, Stop, Resume page0]))
        = [StepFillEmail ''c@x'', StepClickContinue]
   \<and> map rr_email (stored_results (tab_storage
        (handle_events steps0 tab0 [Start, Stop, Start, Resume page0, Resume page0])))
        = [''c@x'', ''c@x'']
   \<and> calls (tab_session (handle_events steps0 tab0 [Start, Stop, Start, Resume page0, Resume page0]))
        = [StepFillEmail ''c@x'', StepClickContinue, StepFillEmail ''c@x'', StepClickContinue]
   \<and> cursor_of (loaded_settings (tab_storage
        (handle_events steps0 tab0 [Start, Stop, Start, Resume page0, Resume page0]))) = 3"
  by code_simp

section \<open>The generator, its pattern and its draws\<close>




section \<open>Step 3 after a failed card number\<close>





section \<open>What a wait returns\<close>

text \<open>
  Claim C7. \<open>waitForElement\<close>, in its polling variant and in its observer variant, returns
  only an element that \<open>querySelector\<close> gave for the selector and whose \<open>offsetParent\<close> is not
  \<open>null\<close>. When no such element shows before the deadline, the polling variant throws and the
  observer variant rejects, both with \<open>Element not found:\<close> and the selector.
\<close>

theorem waitForElement_only_rendered:
  "(waitForElement_poll doc late selector timeout elapsed = Inr e \<longrightarrow>
      offsetParent e \<noteq> None \<and> (\<exists>t<timeout. doc t selector = Some e))
   \<and> ((\<forall>t<timeout. ready (doc t) selector = None) \<longrightarrow>
      waitForElement_poll doc late selector timeout elapsed = Inl (''Element not found: '' @ selector))
   \<and> (waitForElement selector d evs = Resolved e \<longrightarrow>
      offsetParent e \<noteq> None
      \<and> (d selector = Some e \<or> (\<exists>m. Mutation m \<in> set evs \<and> m selector = Some e)))
   \<and> (ready d selector = None \<and> (\<forall>m. Mutation m \<in> set pre \<longrightarrow> ready m selector = None) \<longrightarrow>
      waitForElement selector d (pre @ TimerFired # post)
        = Rejected (''Element not found: '' @ selector))"
proof (intro conjI impI)
  assume "waitForElement_poll doc late selector timeout elapsed = Inr e"
  from waitForElement_poll_found [OF this] obtain t
    where "t < timeout" "ready (doc t) selector = Some e" by blast
  with ready_Some [of "doc t" selector e]
  show "offsetParent e \<noteq> None" and "\<exists>t<timeout. doc t selector = Some e" by blast+
next
  assume "\<forall>t<timeout. ready (doc t) selector = None"
  then show "waitForElement_poll doc late selector timeout elapsed
      = Inl (''Element not found: '' @ selector)"
    by (rule waitForElement_poll_timeout)
next
  assume "waitForElement selector d evs = Resolved e"
  from waitForElement_resolved_ready [OF this] ready_Some [of _ selector e]
  show "offsetParent e \<noteq> None"
    and "d selector = Some e \<or> (\<exists>m. Mutation m \<in> set evs \<and> m selector = Some e)"
    by blast+
next
  assume "ready d selector = None \<and> (\<forall>m. Mutation m \<in> set pre \<longrightarrow> ready m selector = None)"
  then show "waitForElement selector d (pre @ TimerFired # post)
      = Rejected (''Element not found: '' @ selector)"
    by (intro waitForElement_deadline) blast+
qed

theorem waitForElement_only_rendered_witness:
  "ready hidden_document ''#card-number'' = None
   \<and> waitForElement_poll (\<lambda>t. hidden_document) (\<lambda>t. 7) ''#card-number'' 5000 0
       = Inl ''Element not found: #card-number''
   \<and> waitForElement ''#card-number'' hidden_document ([Mutation hidden_document] @ TimerFired # [])
       = Rejected ''Element not found: #card-number''
   \<and> waitForElement ''#card-number'' hidden_document [Mutation shown_document, TimerFired]
       = Resolved \<lparr>el_id = 2, offsetParent = Some 0\<rparr>
   \<and> offsetParent \<lparr>el_id = 2, offsetParent = Some 0\<rparr> \<noteq> None"
proof -
  have hidden: "ready hidden_document ''#card-number'' = None"
    by (simp add: ready_def hidden_document_def)
  then have always: "\<forall>t<(5000::nat). ready ((\<lambda>t. hidden_document) t) ''#card-number'' = None"
    by simp
  have muts: "\<forall>m. Mutation m \<in> set [Mutation hidden_document] \<longrightarrow> ready m ''#card-number'' = None"
    using hidden by simp
  have shown: "waitForElement ''#card-number'' hidden_document [Mutation shown_document, TimerFired]
       = Resolved \<lparr>el_id = 2, offsetParent = Some 0\<rparr>"
    by (simp add: waitForElement_def waitForElement_start_def waitForElement_on_def ready_def
        hidden_document_def shown_document_def)
  note inst = waitForElement_only_rendered
    [where doc = "\<lambda>t. hidden_document" and late = "\<lambda>t. 7" and selector = "''#card-number''"
       and timeout = 5000 and elapsed = 0 and d = hidden_document
       and pre = "[Mutation hidden_document]" and post = "[]"
       and evs = "[Mutation shown_document, TimerFired]"
       and e = "\<lparr>el_id = 2, offsetParent = Some 0\<rparr>"]
  from inst [THEN conjunct2, THEN conjunct1, THEN mp, OF always]
  have a: "waitForElement_poll (\<lambda>t. hidden_document) (\<lambda>t. 7) ''#card-number'' 5000 0
       = Inl ''Element not found: #card-number''"
    by simp
  from inst [THEN conjunct2, THEN conjunct2, THEN conjunct2, THEN mp, OF conjI [OF hidden muts]]
  have b: "waitForElement ''#card-number'' hidden_document ([Mutation hidden_document] @ TimerFired # [])
       = Rejected ''Element not found: #card-number''"
    by simp
  from inst shown have c: "offsetParent \<lparr>el_id = 2, offsetParent = Some 0\<rparr> \<noteq> None"
    by blast
  from hidden a b shown c show ?thesis by blast
qed

section \<open>A stop request while a wait is in flight\<close>

text \<open>
  Claim C6, as the code has it. No wait can be cancelled from outside. The handler of
  \<open>STOP_AUTOMATION\<close> clears \<open>state.isRunning\<close> and reports; a wait in flight stays as it is
  and is settled as if no stop had been issued. A wait is rejected by its timer only, with
  the timeout message: there is no other failure outcome.
\<close>

theorem stop_does_not_settle_a_wait:
  "snd (foldl (waiting_step (waitForElement_on selector)) (s, waitForElement_start selector d) inps)
     = waitForElement selector d (dom_events inps)
   \<and> snd (foldl (waiting_step (waitForCondition_on conditionFn))
            (s, waitForCondition_start conditionFn d) inps)
     = foldl (waitForCondition_on conditionFn) (waitForCondition_start conditionFn d) (dom_events inps)
   \<and> snd (waiting_step on_event (s, Pending) External_stop) = Pending
   \<and> (waitForElement selector d evs = Rejected msg \<longrightarrow>
        msg = ''Element not found: '' @ selector \<and> TimerFired \<in> set evs)
   \<and> (foldl (waitForCondition_on conditionFn) (waitForCondition_start conditionFn d) evs
          = Rejected msg \<longrightarrow>
        msg = ''Timeout waiting for condition'' \<and> TimerFired \<in> set evs)"
proof (intro conjI impI)
  show "snd (foldl (waiting_step (waitForElement_on selector)) (s, waitForElement_start selector d) inps)
     = waitForElement selector d (dom_events inps)"
    by (simp add: waiting_stop_invisible waitForElement_def)
  show "snd (foldl (waiting_step (waitForCondition_on conditionFn))
            (s, waitForCondition_start conditionFn d) inps)
     = foldl (waitForCondition_on conditionFn) (waitForCondition_start conditionFn d) (dom_events inps)"
    by (simp add: waiting_stop_invisible)
  show "snd (waiting_step on_event (s, Pending) External_stop) = Pending"
    by (simp add: waiting_step_def)
next
  assume rej: "waitForElement selector d evs = Rejected msg"
  then have "waitForElement_start selector d = Pending"
    by (cases "waitForElement_start selector d")
      (simp_all add: waitForElement_def waitForElement_on_settled waitForElement_start_def
        split: option.splits)
  with rej have "foldl (waitForElement_on selector) Pending evs = Rejected msg"
    by (simp add: waitForElement_def)
  from waitForElement_rejected_by_timer [OF this]
  show "msg = ''Element not found: '' @ selector" and "TimerFired \<in> set evs" by blast+
next
  assume rej: "foldl (waitForCondition_on conditionFn) (waitForCondition_start conditionFn d) evs
      = Rejected msg"
  then have "waitForCondition_start conditionFn d = Pending"
    by (cases "conditionFn d") (simp_all add: waitForCondition_start_def waitForCondition_on_settled)
  with rej have "foldl (waitForCondition_on conditionFn) Pending evs = Rejected msg"
    by simp
  from waitForCondition_rejected_by_timer [OF this]
  show "msg = ''Timeout waiting for condition''" and "TimerFired \<in> set evs" by blast+
qed

theorem stop_does_not_settle_a_wait_witness:
  "waitForElement ''#card-number'' no_document [TimerFired] = Rejected ''Element not found: #card-number''
   \<and> TimerFired \<in> set [TimerFired]
   \<and> snd (foldl (waiting_step (waitForElement_on ''#card-number''))
           (idle0, waitForElement_start ''#card-number'' no_document)
           [External_stop, Dom (Mutation shown_document)])
       = Resolved \<lparr>el_id = 2, offsetParent = Some 0\<rparr>"
proof -
  have rej: "waitForElement ''#card-number'' no_document [TimerFired]
      = Rejected ''Element not found: #card-number''"
    by (simp add: waitForElement_def waitForElement_start_def waitForElement_on_def ready_def
        no_document_def)
  have res: "waitForElement ''#card-number'' no_document
        (dom_events [External_stop, Dom (Mutation shown_document)])
      = Resolved \<lparr>el_id = 2, offsetParent = Some 0\<rparr>"
    by (simp add: waitForElement_def waitForElement_start_def waitForElement_on_def ready_def
        no_document_def shown_document_def dom_events_def)
  note inst = stop_does_not_settle_a_wait
    [where selector = "''#card-number''" and d = no_document and s = idle0
       and inps = "[External_stop, Dom (Mutation shown_document)]" and evs = "[TimerFired]"
       and msg = "''Element not found: #card-number''"]
  from inst rej have "TimerFired \<in> set [TimerFired]" by blast
  moreover from inst [THEN conjunct1] res
  have "snd (foldl (waiting_step (waitForElement_on ''#card-number''))
           (idle0, waitForElement_start ''#card-number'' no_document)
           [External_stop, Dom (Mutation shown_document)])
       = Resolved \<lparr>el_id = 2, offsetParent = Some 0\<rparr>"
    by (rule trans)
  ultimately show ?thesis using rej by blast
qed

text \<open>
  The claim as the specification words it fails: a stop issued while a wait is in flight
  leaves the wait pending, and the wait then ends by its timer with the timeout error.
\<close>

theorem stop_leaves_wait_pending_counterexample:
  "waitForElement_start ''#card-number'' no_document = Pending
   \<and> snd (waiting_step (waitForElement_on ''#card-number'')
           (idle0, waitForElement_start ''#card-number'' no_document) External_stop) = Pending
   \<and> snd (foldl (waiting_step (waitForElement_on ''#card-number''))
           (idle0, waitForElement_start ''#card-number'' no_document)
           [External_stop, Dom TimerFired])
       = Rejected ''Element not found: #card-number''"
  by (simp add: waiting_step_def waitForElement_start_def waitForElement_on_def ready_def
      no_document_def)

section \<open>The fill across frames\<close>

text \<open>
  Claim C4. \<open>getAllFrames\<close> lists the frame tree depth first, root first.
  \<open>fillIframeField\<close> never throws: it returns a response. With the debugger attached and
  the frame tree obtained, it tries the frames in that order and returns success with the
  id of the first frame in which the script finds and fills the control; the frames after it
  are not tried. When no frame has the control, every frame is tried and the response is the
  failure \<open>Input not found in any frame\<close>. When attaching fails, the response is a failure
  with the message of the exception.
\<close>

theorem fill_stops_at_first_frame:
  "getAllFrames frameTree = preorder frameTree
   \<and> (\<exists>response. fst (fillIframeField env tabId selector val b) = Inr response)
   \<and> (fst (attachDebugger env tabId b) = Inr ok \<and> getFrameTree_answer env tabId = Inr frameTree \<longrightarrow>
        (preorder frameTree = pre @ fr # post
           \<and> (\<forall>f\<in>set pre. found_in env tabId selector val f = None)
           \<and> found_in env tabId selector val fr = Some v \<longrightarrow>
         fst (fillIframeField env tabId selector val b) = Inr (Success (frame_id fr) v)
         \<and> attempted (snd (fillIframeField env tabId selector val b))
             = attempted b @ map frame_id (pre @ [fr]))
        \<and> ((\<forall>f\<in>set (preorder frameTree). found_in env tabId selector val f = None) \<longrightarrow>
         fst (fillIframeField env tabId selector val b)
           = Inr (Failure ''Input not found in any frame'')
         \<and> attempted (snd (fillIframeField env tabId selector val b))
             = attempted b @ map frame_id (preorder frameTree)))
   \<and> (fst (attachDebugger env tabId b) = Inl err \<longrightarrow>
        fst (fillIframeField env tabId selector val b) = Inr (Failure err))"
proof (intro conjI impI)
  show "getAllFrames frameTree = preorder frameTree" by (rule getAllFrames_preorder)
  show "\<exists>response. fst (fillIframeField env tabId selector val b) = Inr response"
    by (rule fillIframeField_returns)
next
  assume ready: "fst (attachDebugger env tabId b) = Inr ok \<and> getFrameTree_answer env tabId = Inr frameTree"
  let ?b = "called (Call_getFrameTree tabId) (snd (attachDebugger env tabId b))"
  have start: "attempted ?b = attempted b"
    by (simp add: attempted_def called_def attachDebugger_def split: option.splits)
  from ready have fill: "fillIframeField env tabId selector val b
    = (Inr (fst (try_frames env tabId selector val (preorder frameTree) ?b)),
       snd (try_frames env tabId selector val (preorder frameTree) ?b))"
    by (intro fillIframeField_frames) blast+
  {
    assume first: "preorder frameTree = pre @ fr # post
           \<and> (\<forall>f\<in>set pre. found_in env tabId selector val f = None)
           \<and> found_in env tabId selector val fr = Some v"
    then have "fst (try_frames env tabId selector val (pre @ fr # post) ?b) = Success (frame_id fr) v
      \<and> attempted (snd (try_frames env tabId selector val (pre @ fr # post) ?b))
          = attempted ?b @ map frame_id (pre @ [fr])"
      by (intro try_frames_first) blast+
    with first fill start
    show "fst (fillIframeField env tabId selector val b) = Inr (Success (frame_id fr) v)"
      and "attempted (snd (fillIframeField env tabId selector val b))
             = attempted b @ map frame_id (pre @ [fr])"
      by simp_all
  }
  {
    assume "\<forall>f\<in>set (preorder frameTree). found_in env tabId selector val f = None"
    from try_frames_none [OF this, of ?b] fill start
    show "fst (fillIframeField env tabId selector val b) = Inr (Failure ''Input not found in any frame'')"
      and "attempted (snd (fillIframeField env tabId selector val b))
             = attempted b @ map frame_id (preorder frameTree)"
      by simp_all
  }
next
  assume "fst (attachDebugger env tabId b) = Inl err"
  then show "fst (fillIframeField env tabId selector val b) = Inr (Failure err)"
    by (cases "attachDebugger env tabId b") (simp add: fillIframeField_def fillIframeField_try_def)
qed

theorem fill_stops_at_first_frame_witness:
  "getAllFrames tree3 = [frame1, frame2, frame3]
   \<and> found_in browser3 7 ''#card-number'' ''4537890000000008'' frame1 = None
   \<and> found_in browser3 7 ''#card-number'' ''4537890000000008'' frame2 = Some ''4537890000000008''
   \<and> fst (fillIframeField browser3 7 ''#card-number'' ''4537890000000008'' bridge0)
       = Inr (Success ''F2'' ''4537890000000008'')
   \<and> attempted (snd (fillIframeField browser3 7 ''#card-number'' ''4537890000000008'' bridge0))
       = [''F1'', ''F2'']"
proof -
  have frames: "preorder tree3 = [frame1] @ frame2 # [frame3]"
    by (simp add: tree3_def)
  have miss: "found_in browser3 7 ''#card-number'' ''4537890000000008'' frame1 = None"
    by (simp add: found_in_def browser3_def frame1_def frame2_def)
  then have before: "\<forall>f\<in>set [frame1]. found_in browser3 7 ''#card-number'' ''4537890000000008'' f = None"
    by simp
  have hit: "found_in browser3 7 ''#card-number'' ''4537890000000008'' frame2 = Some ''4537890000000008''"
    by (simp add: found_in_def browser3_def frame2_def)
  have att: "fst (attachDebugger browser3 7 bridge0) = Inr True"
    by (simp add: attachDebugger_def browser3_def bridge0_def)
  have tree: "getFrameTree_answer browser3 7 = Inr tree3"
    by (simp add: browser3_def)
  note inst = fill_stops_at_first_frame
    [where frameTree = tree3 and env = browser3 and tabId = 7 and selector = "''#card-number''"
       and val = "''4537890000000008''" and b = bridge0 and ok = True
       and pre = "[frame1]" and fr = frame2 and post = "[frame3]" and v = "''4537890000000008''"]
  from inst frames have a: "getAllFrames tree3 = [frame1, frame2, frame3]" by simp
  from inst [THEN conjunct2, THEN conjunct2, THEN conjunct1, THEN mp, OF conjI [OF att tree],
      THEN conjunct1, THEN mp, OF conjI [OF frames conjI [OF before hit]]]
  have "fst (fillIframeField browser3 7 ''#card-number'' ''4537890000000008'' bridge0)
       = Inr (Success ''F2'' ''4537890000000008'')"
    and "attempted (snd (fillIframeField browser3 7 ''#card-number'' ''4537890000000008'' bridge0))
       = [''F1'', ''F2'']"
    by (simp_all add: frame1_def frame2_def attempted_def bridge0_def)
  with a miss hit show ?thesis by blast
qed

section \<open>Attaching the debugger\<close>

text \<open>
  Claim C8. \<open>attachDebugger\<close> on a tab that is in \<open>debuggerSessions\<close> makes no call to the
  browser, changes nothing and returns \<open>true\<close>. Attaching twice in a row is attaching once:
  same result, same state, at most one call of \<open>chrome.debugger.attach\<close>. After any sequence
  of fill and detach requests the worker holds at most one open session on a tab.
\<close>

theorem attachDebugger_idempotent:
  "(debuggerSessions b tabId \<noteq> None \<longrightarrow> attachDebugger env tabId b = (Inr True, b))
   \<and> attach_twice env tabId b = attachDebugger env tabId b
   \<and> (fst (attachDebugger env tabId b) = Inr ok \<longrightarrow>
        attachDebugger env' tabId (snd (attachDebugger env tabId b))
          = (Inr True, snd (attachDebugger env tabId b)))
   \<and> (\<exists>new. debugger_calls (snd (attach_twice env tabId b)) = debugger_calls b @ new
          \<and> length new \<le> 1)
   \<and> live_sessions t (foldl serve bridge0 requests) \<le> 1"
proof (intro conjI impI)
  assume "debuggerSessions b tabId \<noteq> None"
  then show "attachDebugger env tabId b = (Inr True, b)" by (rule attachDebugger_registered)
next
  show "attach_twice env tabId b = attachDebugger env tabId b" by (rule attach_twice_once)
next
  assume "fst (attachDebugger env tabId b) = Inr ok"
  from attachDebugger_success_registers [OF this]
  show "attachDebugger env' tabId (snd (attachDebugger env tabId b))
      = (Inr True, snd (attachDebugger env tabId b))"
    by (rule attachDebugger_registered)
next
  from attachDebugger_calls [of env tabId b]
  show "\<exists>new. debugger_calls (snd (attach_twice env tabId b)) = debugger_calls b @ new
      \<and> length new \<le> 1"
    by (auto simp: attach_twice_once)
next
  show "live_sessions t (foldl serve bridge0 requests) \<le> 1"
    by (intro registry_exact_le registry_exact_served registry_exact_bridge0)
qed

theorem attachDebugger_idempotent_witness:
  "fst (attachDebugger browser3 7 bridge0) = Inr True
   \<and> debuggerSessions (snd (attachDebugger browser3 7 bridge0)) 7 = Some True
   \<and> attachDebugger browser3 7 (snd (attachDebugger browser3 7 bridge0))
       = (Inr True, snd (attachDebugger browser3 7 bridge0))
   \<and> debugger_calls (snd (attach_twice browser3 7 bridge0)) = [Call_attach 7 True]"
proof -
  have att: "fst (attachDebugger browser3 7 bridge0) = Inr True"
    by (simp add: attachDebugger_def browser3_def bridge0_def)
  have reg: "debuggerSessions (snd (attachDebugger browser3 7 bridge0)) 7 = Some True"
    by (simp add: attachDebugger_def browser3_def bridge0_def called_def)
  have calls: "debugger_calls (snd (attachDebugger browser3 7 bridge0)) = [Call_attach 7 True]"
    by (simp add: attachDebugger_def browser3_def bridge0_def called_def)
  note inst = attachDebugger_idempotent
    [where b = bridge0 and tabId = 7 and env = browser3 and env' = browser3 and ok = True]
  from inst [THEN conjunct2, THEN conjunct2, THEN conjunct1, THEN mp, OF att]
  have again: "attachDebugger browser3 7 (snd (attachDebugger browser3 7 bridge0))
       = (Inr True, snd (attachDebugger browser3 7 bridge0))" .
  from inst [THEN conjunct2, THEN conjunct1] calls
  have "debugger_calls (snd (attach_twice browser3 7 bridge0)) = [Call_attach 7 True]"
    by simp
  with att reg again show ?thesis by blast
qed

end
